theory Spec2Isabelle
  imports Main "HOL-Library.Word" "HOL-Library.Log_Nat"
begin

section \<open>The escrow ledger (src/contracts/VideoCallEscrow.sol)\<close>

text \<open>
  Solidity's \<open>address\<close> is a 160-bit value, \<open>bytes32\<close> and \<open>uint256\<close> are 256-bit
  values. The contract does no arithmetic on amounts, durations or times: it stores and
  compares them. The ether balance of the contract is kept as a natural number, since the
  chain's own accounting never lets it wrap.
\<close>

type_synonym address = "160 word"
type_synonym bytes32 = "256 word"
type_synonym uint256 = "256 word"

record Call =
  client :: address
  developer :: address
  amount :: uint256
  duration :: uint256
  startTime :: uint256
  isActive :: bool
  isCompleted :: bool
  isPaid :: bool

datatype event =
    CallCreated bytes32 address address uint256 uint256 uint256
  | CallStarted bytes32 uint256
  | CallCompleted bytes32 uint256
  | PaymentReleased bytes32 address uint256
  | Debug string bytes32

text \<open>
  The custom errors of the contract; \<open>Revert\<close> is the plain-text \<open>revert("...")\<close>.
\<close>

datatype error =
    InvalidAmount uint256
  | InvalidDuration uint256
  | InvalidDeveloper address
  | CallNotFound bytes32
  | CallAlreadyExists bytes32
  | CallAlreadyStarted bytes32
  | CallAlreadyCompleted bytes32
  | Unauthorized address address
  | SelfBookingNotAllowed address
  | DurationNotMet uint256 uint256
  | PaymentFailed address uint256
  | Revert string

text \<open>
  The state of the deployed contract: its storage (\<open>calls\<close>, \<open>owner\<close>), its ether
  balance (\<open>address(this).balance\<close>), the log of events it has emitted and the value
  transfers it has made (target and value of each low-level call that returned success),
  both oldest first. A Solidity mapping is total: a key never written reads as the
  all-zero struct.
\<close>

record escrow =
  calls :: "bytes32 \<Rightarrow> Call"
  owner :: address
  balance :: nat
  events :: "event list"
  transfers :: "(address \<times> uint256) list"

definition no_call :: Call where
  "no_call = \<lparr>client = 0, developer = 0, amount = 0, duration = 0, startTime = 0,
     isActive = False, isCompleted = False, isPaid = False\<rparr>"

text \<open>The constructor: \<open>owner = msg.sender\<close>, nothing else is written.\<close>

definition deploy :: "address \<Rightarrow> escrow" where
  "deploy sender = \<lparr>calls = (\<lambda>_. no_call), owner = sender, balance = 0, events = [],
     transfers = []\<rparr>"

definition emit :: "event \<Rightarrow> escrow \<Rightarrow> escrow" where
  "emit e s = s\<lparr>events := events s @ [e]\<rparr>"

subsection \<open>String helpers of the contract\<close>

text \<open>
  \<open>toHexChar\<close> takes a \<open>uint8\<close>; \<open>toHexString\<close> calls it with values below 16 only,
  for which the sums stay within a byte.
\<close>

definition toHexChar :: "nat \<Rightarrow> char" where
  "toHexChar b = (if b < 10 then char_of (b + 48) else char_of (b + 87))"

text \<open>
  \<open>toString\<close>: the second loop of the source writes the decimal digits into the buffer
  from its last position backwards; here each digit is put in front of the digits
  already written.
\<close>

function toString_loop :: "nat \<Rightarrow> string \<Rightarrow> string" where
  "toString_loop v buffer =
     (if v = 0 then buffer else toString_loop (v div 10) (char_of (48 + v mod 10) # buffer))"
  by pat_completeness auto
termination
  by (relation "measure fst") auto

declare toString_loop.simps [simp del]

definition toString :: "uint256 \<Rightarrow> string" where
  "toString v = (if v = 0 then ''0'' else toString_loop (unat v) [])"

definition toHexString :: "address \<Rightarrow> string" where
  "toHexString addr = ''0x'' @ concat (map (\<lambda>i.
       let b = (unat addr div 2 ^ (8 * (19 - i))) mod 256
       in [toHexChar (b div 16), toHexChar (b mod 16)]) [0..<20])"

subsection \<open>Views\<close>

text \<open>
  The modifiers \<open>callExists\<close> and \<open>onlyDeveloper\<close> are written out as the first checks
  of the functions that carry them.
\<close>

definition doesCallExist :: "escrow \<Rightarrow> bytes32 \<Rightarrow> bool" where
  "doesCallExist s callId = (client (calls s callId) \<noteq> 0)"


subsection \<open>createCall\<close>

text \<open>
  \<open>createCall\<close> is payable: the attached value is credited to the contract before the
  body runs. A revert gives \<open>Inl\<close> and the caller of the model discards every effect
  of the body (see \<open>transact\<close>), as the chain does.
\<close>

definition createCall ::
  "uint256 \<Rightarrow> escrow \<Rightarrow> address \<Rightarrow> uint256 \<Rightarrow> bytes32 \<Rightarrow> address \<Rightarrow> uint256 \<Rightarrow> error + escrow" where
  "createCall now s sender val callId dev dur =
     (let s1 = s\<lparr>balance := balance s + unat val\<rparr>;
          s2 = emit (Debug ''Creating call'' callId) s1
      in if val = 0 then Inl (InvalidAmount val)
         else if dur = 0 then Inl (InvalidDuration dur)
         else if dev = 0 then Inl (InvalidDeveloper dev)
         else if sender = dev then Inl (SelfBookingNotAllowed sender)
         else if client (calls s2 callId) \<noteq> 0 \<and>
                 (\<not> isCompleted (calls s2 callId) \<or> isPaid (calls s2 callId))
           then Inl (CallAlreadyExists callId)
         else Inr (emit (CallCreated callId sender dev val dur now)
                (s2\<lparr>calls := (calls s2)(callId :=
                   \<lparr>client = sender, developer = dev, amount = val, duration = dur,
                    startTime = 0, isActive = False, isCompleted = False,
                    isPaid = False\<rparr>)\<rparr>)))"

subsection \<open>startCall\<close>

text \<open>
  The modifier \<open>callExists\<close> runs before the body. No line of the function reads
  \<open>msg.sender\<close>.
\<close>

definition startCall :: "uint256 \<Rightarrow> escrow \<Rightarrow> address \<Rightarrow> bytes32 \<Rightarrow> error + escrow" where
  "startCall now s sender callId =
     (if client (calls s callId) = 0 then Inl (CallNotFound callId)
      else let s1 = emit (Debug ''Starting call'' callId) s;
               call = calls s1 callId
           in if isActive call then Inl (CallAlreadyStarted callId)
              else if isCompleted call then Inl (CallAlreadyCompleted callId)
              else Inr (emit (CallStarted callId now)
                     (s1\<lparr>calls := (calls s1)(callId :=
                        call\<lparr>isActive := True, startTime := now\<rparr>)\<rparr>)))"

subsection \<open>completeCall\<close>

text \<open>
  The state at the moment of \<open>call.developer.call{value: amount}("")\<close>, from the
  state in which the checks have passed: the second Debug event is logged, the flags are
  set, the stored amount is cleared, and the value has left the contract's balance.
\<close>

definition before_transfer :: "escrow \<Rightarrow> bytes32 \<Rightarrow> escrow" where
  "before_transfer s callId =
     (let call = calls s callId; amt = amount call;
          s1 = emit (Debug (''Call status: client='' @ toHexString (client call) @
                 '', developer='' @ toHexString (developer call) @
                 '', amount='' @ toString amt) callId) s;
          s2 = s1\<lparr>calls := (calls s1)(callId :=
                 call\<lparr>isCompleted := True, isPaid := True, amount := 0\<rparr>)\<rparr>
      in s2\<lparr>balance := balance s2 - unat amt,
            transfers := transfers s2 @ [(developer call, amt)]\<rparr>)"

text \<open>
  \<open>recipient\<close> is the code of the developer's account run by the low-level call: given
  the contract's state at that moment it returns \<open>None\<close> when the call fails, or the
  contract's state when the call returns successfully (changed only if the recipient
  called back into the contract). The modifiers \<open>callExists\<close> and \<open>onlyDeveloper\<close> run
  first, in this order.
\<close>

definition completeCall ::
  "(escrow \<Rightarrow> escrow option) \<Rightarrow> uint256 \<Rightarrow> escrow \<Rightarrow> address \<Rightarrow> bytes32 \<Rightarrow> error + escrow" where
  "completeCall recipient now s sender callId =
     (if client (calls s callId) = 0 then Inl (CallNotFound callId)
      else if developer (calls s callId) \<noteq> sender
        then Inl (Unauthorized sender (developer (calls s callId)))
      else let s1 = emit (Debug ''Completing call'' callId) s;
               call = calls s1 callId
           in if isCompleted call then Inl (CallAlreadyCompleted callId)
              else if isPaid call then Inl (Revert ''Payment already released'')
              else let amt = amount call
                   in if amt = 0 then Inl (Revert ''No payment amount available'')
                      else if balance s1 < unat amt
                        then Inl (Revert ''Insufficient contract balance'')
                      else (case recipient (before_transfer s1 callId) of
                              None \<Rightarrow>
                                Inl (PaymentFailed
                                  (developer (calls (before_transfer s1 callId) callId)) amt)
                            | Some s2 \<Rightarrow>
                                Inr (emit (PaymentReleased callId
                                       (developer (calls s2 callId)) amt)
                                     (emit (CallCompleted callId now) s2))))"

subsection \<open>Transactions\<close>

text \<open>
  A transaction calls one of the three external functions. For \<open>completeCall\<close> it also
  fixes what the recipient of the payment does: the calls it makes back into the contract
  while it holds control (each with its own sender; a call that reverts is undone and
  the recipient goes on), and whether it then accepts the payment.
\<close>

datatype tx =
    CreateCall address uint256 bytes32 address uint256
  | StartCall address bytes32
  | CompleteCall address bytes32 "tx list" bool

fun exec :: "uint256 \<Rightarrow> escrow \<Rightarrow> tx \<Rightarrow> error + escrow"
  and reenter :: "uint256 \<Rightarrow> escrow \<Rightarrow> tx list \<Rightarrow> escrow" where
  "exec now s (CreateCall sender val callId dev dur) = createCall now s sender val callId dev dur"
| "exec now s (StartCall sender callId) = startCall now s sender callId"
| "exec now s (CompleteCall sender callId inner accepts) =
     completeCall (\<lambda>s'. if accepts then Some (reenter now s' inner) else None)
       now s sender callId"
| "reenter now s [] = s"
| "reenter now s (t # ts) =
     reenter now (case exec now s t of Inl e \<Rightarrow> s | Inr s' \<Rightarrow> s') ts"

text \<open>
  A transaction is atomic: when it reverts the state is the one before it. \<open>run\<close>
  executes a sequence of transactions, each in a block with its own timestamp.
\<close>

definition transact :: "escrow \<Rightarrow> uint256 \<times> tx \<Rightarrow> escrow" where
  "transact s bt = (case exec (fst bt) s (snd bt) of Inl e \<Rightarrow> s | Inr s' \<Rightarrow> s')"

definition run :: "escrow \<Rightarrow> (uint256 \<times> tx) list \<Rightarrow> escrow" where
  "run s txs = foldl transact s txs"

subsection \<open>Observations on the ledger\<close>

text \<open>The \<open>PaymentReleased\<close> events that the log holds for one call id.\<close>

definition is_payment :: "bytes32 \<Rightarrow> event \<Rightarrow> bool" where
  "is_payment callId e = (case e of PaymentReleased c _ _ \<Rightarrow> c = callId | _ \<Rightarrow> False)"

definition payments :: "bytes32 \<Rightarrow> escrow \<Rightarrow> event list" where
  "payments callId s = filter (is_payment callId) (events s)"

text \<open>
  The value the log says has come in (\<open>CallCreated\<close>) and gone out
  (\<open>PaymentReleased\<close>), and the contract's balance corrected by both: the part of the
  balance that no logged event accounts for.
\<close>

definition escrowed :: "event \<Rightarrow> int" where
  "escrowed e = (case e of CallCreated _ _ _ a _ _ \<Rightarrow> uint a | _ \<Rightarrow> 0)"

definition released :: "event \<Rightarrow> int" where
  "released e = (case e of PaymentReleased _ _ a \<Rightarrow> uint a | _ \<Rightarrow> 0)"

definition unlogged :: "escrow \<Rightarrow> int" where
  "unlogged s = int (balance s) + sum_list (map released (events s))
                  - sum_list (map escrowed (events s))"

text \<open>
  The states in which code of the contract starts to run: the deployed contract, the
  state after a transaction that went through, and the state in which the recipient of a
  payment gets control (the checks of \<open>completeCall\<close> have passed, which is to say that
  \<open>completeCall\<close> goes through when the recipient accepts and does nothing else).
\<close>

inductive reachable :: "escrow \<Rightarrow> bool" where
  deployed: "reachable (deploy sender)"
| executed: "reachable s \<Longrightarrow> exec now s t = Inr s' \<Longrightarrow> reachable s'"
| entered: "reachable s \<Longrightarrow> completeCall Some now s sender callId = Inr s' \<Longrightarrow>
     reachable (before_transfer (emit (Debug ''Completing call'' callId) s) callId)"

section \<open>JavaScript numbers\<close>

text \<open>
  A JavaScript number is an IEEE 754 double. Each arithmetic operation, and the reading
  of a decimal string, gives the double nearest to the exact result, ties going to the
  even significand. The doubles are kept here as the rationals they denote. \<open>rne\<close>
  rounds to the nearest whole number, ties to even; \<open>binade x\<close> is the exponent \<open>e\<close>
  with \<open>2^e \<le> x < 2^(e+1)\<close> for a positive \<open>x\<close>; \<open>to_double\<close> keeps 53 significant
  bits. The limits of the exponent (overflow to infinity, subnormal numbers) and NaN
  are not modelled: the values computed below stay far inside these limits.
\<close>

definition rne :: "rat \<Rightarrow> int" where
  "rne x = (let f = \<lfloor>x\<rfloor>; r = x - of_int f
            in if r < 1 / 2 then f else if 1 / 2 < r then f + 1
               else if even f then f else f + 1)"

definition binade :: "rat \<Rightarrow> int" where
  "binade x = (let (p, r) = quotient_of x; e0 = bitlen p - bitlen r
               in if 2 powi e0 \<le> x then e0 else e0 - 1)"

definition to_double :: "rat \<Rightarrow> rat" where
  "to_double x = (if x = 0 then 0
                  else let u = 2 powi (binade \<bar>x\<bar> - 52)
                       in sgn x * of_int (rne (\<bar>x\<bar> / u)) * u)"

section \<open>The transaction orchestrator (src/services/web3Service.ts)\<close>

subsection \<open>completeCall: waiting for the confirmation\<close>

text \<open>
  What the provider answers to \<open>getTransactionReceipt(txHash)\<close>: it throws, it has no
  receipt yet (\<open>null\<close>), or it returns a receipt with its \<open>status\<close>. What the contract
  answers to the \<open>getCallDetails\<close> read that follows a receipt: it throws, or it returns
  the record, of which the loop reads \<open>isPaid\<close>.
\<close>

datatype receipt_reply = ReceiptError string | NoReceipt | Receipt bool

datatype details_reply = DetailsError string | Details bool

text \<open>
  How the \<open>try\<close> block of one iteration ends: it runs to its end, it leaves the loop
  with \<open>break\<close>, or it throws.
\<close>

datatype control = Completed | Broke | Thrown string

definition maxAttempts :: nat where
  "maxAttempts = 30"

text \<open>
  The \<open>try\<close> block. It returns the variable \<open>receipt\<close> (the status of the receipt once
  one is assigned) with the way the block ends; the assignment to \<open>receipt\<close> comes
  before the checks that throw.
\<close>

definition try_receipt :: "receipt_reply \<Rightarrow> details_reply \<Rightarrow> bool option \<times> control" where
  "try_receipt r d =
     (case r of
        ReceiptError msg \<Rightarrow> (None, Thrown msg)
      | NoReceipt \<Rightarrow> (None, Completed)
      | Receipt status \<Rightarrow>
          if \<not> status then (Some status, Thrown ''Transaction failed'')
          else (case d of
                  DetailsError msg \<Rightarrow> (Some status, Thrown msg)
                | Details paid \<Rightarrow>
                    if \<not> paid
                    then (Some status, Thrown ''Payment not confirmed after transaction'')
                    else (Some status, Broke)))"

text \<open>
  The loop \<open>while (!receipt && attempts < maxAttempts)\<close>. The \<open>catch\<close> of the loop body
  logs the error and falls through to the wait and to \<open>attempts++\<close>, as the end of the
  \<open>try\<close> block does. \<open>poll n\<close> and \<open>reread n\<close> are the answers at attempt \<open>n\<close>.
\<close>

function confirm_loop ::
  "(nat \<Rightarrow> receipt_reply) \<Rightarrow> (nat \<Rightarrow> details_reply) \<Rightarrow> bool option \<Rightarrow> nat \<Rightarrow> bool option" where
  "confirm_loop poll reread receipt attempts =
     (if receipt = None \<and> attempts < maxAttempts then
        (case try_receipt (poll attempts) (reread attempts) of
           (receipt', Broke) \<Rightarrow> receipt'
         | (receipt', Completed) \<Rightarrow> confirm_loop poll reread receipt' (attempts + 1)
         | (receipt', Thrown msg) \<Rightarrow> confirm_loop poll reread receipt' (attempts + 1))
      else receipt)"
  by pat_completeness auto
termination
  by (relation "measure (\<lambda>(poll, reread, receipt, attempts). maxAttempts - attempts)") auto

declare confirm_loop.simps [simp del]

text \<open>
  The end of \<open>completeCall\<close>, from the sent transaction on: \<open>Inr\<close> is the returned
  transaction hash, \<open>Inl\<close> the message of the error the outer \<open>catch\<close> throws.
\<close>

definition completeCall_confirm ::
  "string \<Rightarrow> (nat \<Rightarrow> receipt_reply) \<Rightarrow> (nat \<Rightarrow> details_reply) \<Rightarrow> string + string" where
  "completeCall_confirm txHash poll reread =
     (case confirm_loop poll reread None 0 of
        None \<Rightarrow> Inl (''Failed to complete call: '' @ ''Transaction not confirmed after 30 seconds'')
      | Some status \<Rightarrow> Inr txHash)"

subsection \<open>Amounts\<close>






section \<open>The call session coordinator (src/pages/VideoCall.tsx)\<close>

text \<open>
  The fields of the session document that the handlers below read. \<open>startTime\<close> is an
  ISO string or null in the document; here it is the instant that
  \<open>new Date(...).getTime()\<close> gives for it, in milliseconds, and \<open>None\<close> for null. The
  instants of a \<open>Date\<close>, of \<open>Date.now()\<close> and of a server timestamp are whole numbers
  of milliseconds of magnitude at most 8.64e15, which doubles hold exactly. The
  duration (in minutes) and the amount are numbers.
\<close>

record CallData =
  cd_status :: string
  cd_duration :: rat
  cd_startTime :: "int option"
  cd_developerId :: string
  cd_walletAddress :: string
  cd_totalAmount :: rat
  cd_callId :: string

text \<open>
  \<open>getServerTimestamp\<close> writes a document with a server-assigned timestamp, reads it
  back and deletes it. Any of the three steps may throw; the timestamp read back may be
  missing.
\<close>

datatype store_reply =
    AddDocFails
  | GetDocFails
  | DeleteDocFails "int option"
  | Stamped "int option"

definition getServerTimestamp :: "store_reply \<Rightarrow> int \<Rightarrow> int" where
  "getServerTimestamp reply date_now =
     (case reply of
        AddDocFails \<Rightarrow> date_now
      | GetDocFails \<Rightarrow> date_now
      | DeleteDocFails timestamp \<Rightarrow> date_now
      | Stamped None \<Rightarrow> date_now
      | Stamped (Some timestamp) \<Rightarrow> if timestamp = 0 then date_now else timestamp)"

text \<open>What a handler does about the countdown.\<close>

datatype timer_action = StartTimer rat | HandleCallEnd | NoAction

text \<open>
  The snapshot handler of \<open>fetchCallData\<close>: the action, and the new value of
  \<open>callInitialized.current\<close>. Every operation on numbers rounds its exact result to a
  double.
\<close>

definition fetchCallData_snapshot ::
  "CallData \<Rightarrow> bool \<Rightarrow> store_reply \<Rightarrow> int \<Rightarrow> timer_action \<times> bool" where
  "fetchCallData_snapshot data callInitialized reply date_now =
     (case cd_startTime data of
        None \<Rightarrow> (NoAction, callInitialized)
      | Some start \<Rightarrow>
          if callInitialized then (NoAction, callInitialized)
          else let serverTimestamp = getServerTimestamp reply date_now;
                   elapsedSeconds = of_int \<lfloor>to_double
                     (to_double (of_int serverTimestamp - of_int start) / 1000)\<rfloor>;
                   remainingSeconds = to_double (to_double (cd_duration data * 60) - elapsedSeconds)
               in if remainingSeconds > 0 then (StartTimer remainingSeconds, True)
                  else (HandleCallEnd, callInitialized))"

text \<open>
  \<open>initializeCall\<close>, on the document it has fetched (the document exists): the
  countdown it sets up, and the new value of \<open>callInitialized.current\<close>. \<open>date_now\<close> is
  \<open>new Date().getTime()\<close>. Joining the media channel, which comes before the countdown,
  is left out.
\<close>

definition initializeCall ::
  "CallData \<Rightarrow> bool \<Rightarrow> int \<Rightarrow> timer_action \<times> bool" where
  "initializeCall data callInitialized date_now =
     (if cd_status data = ''active'' \<and> \<not> callInitialized then
        (case cd_startTime data of
           None \<Rightarrow> (NoAction, True)
         | Some start \<Rightarrow>
             if cd_duration data = 0 then (NoAction, True)
             else let currentTime = date_now;
                      elapsedSeconds = of_int \<lfloor>to_double
                        (to_double (of_int currentTime - of_int start) / 1000)\<rfloor>;
                      totalSeconds = to_double (cd_duration data * 60);
                      remainingSeconds = to_double (totalSeconds - elapsedSeconds)
                  in if remainingSeconds > 0 then (StartTimer remainingSeconds, True)
                     else (HandleCallEnd, True))
      else (NoAction, callInitialized))"

subsection \<open>Ending a session\<close>

text \<open>
  The fields of the session document that the listeners read from a snapshot; a flag
  that the document does not have reads as false.
\<close>

record Snapshot =
  sn_status :: string
  sn_requiresPayment :: bool
  sn_paymentReleased :: bool

text \<open>
  The calls of \<open>updateDoc\<close>: the one of \<open>handleCallEnd\<close> that sets the status to
  completed and \<open>requiresPayment\<close> to true (with the end time, the user and the reason
  given here), its second one that sets \<open>actualDuration\<close>, the one of \<open>processPayment\<close>
  that sets \<open>paymentReleased\<close> to true and \<open>requiresPayment\<close> to false (with the time
  and the transaction hash given here), and the one of its \<open>catch\<close> that records the
  error message. \<open>apply_write\<close> is what a write does to the fields of a snapshot.
\<close>

datatype doc_write =
    WriteCompleted string
  | WriteActualDuration
  | WritePaymentReleased string
  | WritePaymentError string

definition apply_write :: "Snapshot \<Rightarrow> doc_write \<Rightarrow> Snapshot" where
  "apply_write doc w =
     (case w of
        WriteCompleted reason \<Rightarrow> doc\<lparr>sn_status := ''completed'', sn_requiresPayment := True\<rparr>
      | WriteActualDuration \<Rightarrow> doc
      | WritePaymentReleased txHash \<Rightarrow>
          doc\<lparr>sn_paymentReleased := True, sn_requiresPayment := False\<rparr>
      | WritePaymentError msg \<Rightarrow> doc)"

text \<open>
  What a handler does, in order: state updates, writes that went through, and calls of
  other components. \<open>CompleteCallTx\<close> is the call \<open>web3Service.completeCall(callId)\<close>,
  which submits the completion transaction.
\<close>

datatype effect =
    SetIsCallEnding bool
  | SetError string
  | LeaveChannel
  | UpdateDoc doc_write
  | ClearTimer
  | CompleteCallTx string
  | Navigate string

text \<open>
  What the handler is answered while it runs: whether leaving the media channel
  succeeds, which writes succeed and the message of a failed one, and what
  \<open>web3Service.completeCall\<close> gives (\<open>Inl\<close> the message of the error it throws, \<open>Inr\<close> the
  transaction hash). \<open>getServerTimestamp\<close> never throws.
\<close>

record replies =
  leaveChannel_ok :: bool
  updateDoc_ok :: "doc_write \<Rightarrow> bool"
  updateDoc_error :: string
  completeCall_reply :: "string + string"

text \<open>
  \<open>processPayment\<close>: its effects, and whether it throws (which it does when the write in
  its own \<open>catch\<close> fails).
\<close>

definition processPayment :: "CallData \<Rightarrow> replies \<Rightarrow> effect list \<times> bool" where
  "processPayment callData io =
     (let first = [SetError [],
            SetError ''Processing payment... Please confirm the transaction in MetaMask.'',
            CompleteCallTx (cd_callId callData)];
          caught = (\<lambda>msg.
            SetError (if msg = [] then ''Failed to process payment. Please try again.''
                      else msg) #
            (if updateDoc_ok io (WritePaymentError msg)
             then [UpdateDoc (WritePaymentError msg), SetIsCallEnding False] else []));
          rethrown = (\<lambda>msg. \<not> updateDoc_ok io (WritePaymentError msg))
      in case completeCall_reply io of
           Inl msg \<Rightarrow> (first @ caught msg, rethrown msg)
         | Inr txHash \<Rightarrow>
             if updateDoc_ok io (WritePaymentReleased txHash)
             then (first @ [UpdateDoc (WritePaymentReleased txHash),
                            Navigate ''/developer-dashboard''], False)
             else (first @ caught (updateDoc_error io), rethrown (updateDoc_error io)))"

text \<open>
  \<open>handleCallEnd\<close>, with the values its closure holds: the session document, the call
  id of the route, \<open>isCallEnding\<close>, the id of the user and \<open>timeLeft\<close>; \<open>timer\<close> says
  whether an interval is running. The empty string is written \<open>[]\<close>.
\<close>

definition handleCallEnd ::
  "CallData option \<Rightarrow> string option \<Rightarrow> bool \<Rightarrow> string option \<Rightarrow> rat option \<Rightarrow> bool \<Rightarrow> replies
     \<Rightarrow> effect list" where
  "handleCallEnd callData callId isCallEnding uid timeLeft timer io =
     (case callData of
        None \<Rightarrow> []
      | Some cd \<Rightarrow>
          if callId = None \<or> callId = Some [] \<or> isCallEnding then []
          else let caught = [SetError ''Failed to end call properly. Please try again.'',
                     SetIsCallEnding False];
                   ended = WriteCompleted (if timeLeft = Some 0 then ''timeout'' else ''manual'')
               in SetIsCallEnding True #
                  (if \<not> leaveChannel_ok io then caught
                   else LeaveChannel #
                     (if \<not> updateDoc_ok io ended then caught
                      else UpdateDoc ended #
                        (if cd_startTime cd \<noteq> None \<and> \<not> updateDoc_ok io WriteActualDuration
                         then caught
                         else (if cd_startTime cd \<noteq> None then [UpdateDoc WriteActualDuration]
                               else []) @
                              (if timer then [ClearTimer] else []) @
                              (if uid = Some (cd_developerId cd) \<and> cd_walletAddress cd \<noteq> [] \<and>
                                  cd_totalAmount cd \<noteq> 0 \<and> cd_callId cd \<noteq> []
                               then fst (processPayment cd io) @
                                    (if snd (processPayment cd io) then caught else [])
                               else [Navigate ''/client-dashboard''])))))"

text \<open>
  The snapshot listener of the \<open>requiresPayment\<close> effect, which is set up only for the
  developer. \<open>isCallEnding\<close> is the value its closure holds; \<open>data\<close> is \<open>snapshot.data()\<close>.
\<close>

definition requiresPayment_listener ::
  "string option \<Rightarrow> CallData \<Rightarrow> bool \<Rightarrow> Snapshot option \<Rightarrow> replies \<Rightarrow> effect list" where
  "requiresPayment_listener uid callData isCallEnding data io =
     (if uid \<noteq> Some (cd_developerId callData) then []
      else case data of
             None \<Rightarrow> []
           | Some d \<Rightarrow>
               if sn_requiresPayment d \<and> \<not> sn_paymentReleased d \<and> \<not> isCallEnding
               then fst (processPayment callData io) else [])"

text \<open>The number of completion transactions that a run of effects submits.\<close>

definition submissions :: "effect list \<Rightarrow> nat" where
  "submissions effs =
     length (filter (\<lambda>e. case e of CompleteCallTx callId \<Rightarrow> True | _ \<Rightarrow> False) effs)"

section \<open>Example states\<close>

text \<open>
  A ledger deployed by account 1, in which account 2 books developer 3 for 60 seconds
  under call id 7 with 100 base units attached (\<open>booked\<close>); the same after the call
  was started by its client (\<open>started\<close>), and after the developer, an account without
  code, completed the call that was never started (\<open>paid_out\<close>).
\<close>

definition booked :: escrow where
  "booked = transact (deploy 1) (5, CreateCall 2 100 7 3 60)"

definition started :: escrow where
  "started = transact booked (6, StartCall 2 7)"

definition paid_out :: escrow where
  "paid_out = transact booked (8, CompleteCall 3 7 [] True)"

text \<open>The call that was started and then completed by the developer.\<close>

definition started_paid :: escrow where
  "started_paid = transact started (8, CompleteCall 3 7 [] True)"

text \<open>
  The ledger with a second booking of the same developer under call id 8, so that the
  balance covers 100 base units twice (\<open>booked_twice\<close>); the same after the developer
  completed call 7 with code that, on receiving the payment, calls \<open>completeCall\<close> for
  call 7 once more (\<open>paid_once\<close>); and a state that no sequence of transactions
  produces, in which the record of call 7 is completed and not paid (\<open>unpaid\<close>).
\<close>

definition booked_twice :: escrow where
  "booked_twice = transact booked (5, CreateCall 2 100 8 3 60)"

definition paid_once :: escrow where
  "paid_once = transact booked_twice (8, CompleteCall 3 7 [CompleteCall 3 7 [] True] True)"

definition unpaid :: escrow where
  "unpaid = booked\<lparr>calls := (calls booked)(7 := (calls booked 7)\<lparr>isCompleted := True\<rparr>)\<rparr>"


text \<open>
  A session document: an active call of 30 minutes with developer \<open>dev\<close>, whose start
  time is the instant 1000000 (in milliseconds).
\<close>

definition session :: CallData where
  "session = \<lparr>cd_status = ''active'', cd_duration = 30, cd_startTime = Some 1000000,
     cd_developerId = ''dev'', cd_walletAddress = ''0x03'', cd_totalAmount = 1,
     cd_callId = ''client_dev_1''\<rparr>"

text \<open>
  The session document while the call is active and after it was ended; and answers
  under which every step succeeds.
\<close>

definition active_doc :: Snapshot where
  "active_doc = \<lparr>sn_status = ''active'', sn_requiresPayment = False, sn_paymentReleased = False\<rparr>"

definition ended_doc :: Snapshot where
  "ended_doc = \<lparr>sn_status = ''completed'', sn_requiresPayment = True,
     sn_paymentReleased = False\<rparr>"

definition replies_ok :: replies where
  "replies_ok = \<lparr>leaveChannel_ok = True, updateDoc_ok = (\<lambda>w. True), updateDoc_error = [],
     completeCall_reply = Inr ''0x5e''\<rparr>"

section \<open>Properties of the rounding\<close>

lemma rne_error: "\<bar>of_int (rne x) - x\<bar> \<le> 1 / 2"
proof -
  have "of_int \<lfloor>x\<rfloor> \<le> x" "x < of_int \<lfloor>x\<rfloor> + 1" by linarith+
  then show ?thesis by (auto simp: rne_def Let_def)
qed

lemma rne_of_int [simp]: "rne (of_int n) = n"
  by (simp add: rne_def)

lemma binade_bounds:
  assumes "0 < x"
  shows "2 powi (binade x) \<le> x" and "x < 2 powi (binade x + 1)"
proof -
  obtain p r where q: "quotient_of x = (p, r)" by (cases "quotient_of x")
  then have r: "0 < r" and x: "x = of_int p / of_int r"
    using quotient_of_denom_pos quotient_of_div by blast+
  with assms have p: "0 < p" by (simp add: zero_less_divide_iff)
  let ?e0 = "bitlen p - bitlen r"
  from bitlen_bounds [OF p] have pb: "2 ^ nat (bitlen p - 1) \<le> p" "p < 2 ^ nat (bitlen p)" by simp_all
  from bitlen_bounds [OF r] have rb: "2 ^ nat (bitlen r - 1) \<le> r" "r < 2 ^ nat (bitlen r)" by simp_all
  have bp: "1 \<le> bitlen p" and br: "1 \<le> bitlen r"
    using p r bitlen_eq_zero_iff [of p] bitlen_eq_zero_iff [of r] bitlen_nonneg [of p] bitlen_nonneg [of r]
    by linarith+
  have pl: "(2::rat) powi (bitlen p - 1) \<le> of_int p"
  proof -
    have "(2::rat) powi (bitlen p - 1) = 2 ^ nat (bitlen p - 1)"
      using bp by (simp add: power_int_def)
    also have "\<dots> = of_int (2 ^ nat (bitlen p - 1))" by simp
    also have "\<dots> \<le> of_int p" using pb(1) by (simp only: of_int_le_iff)
    finally show ?thesis .
  qed
  have pu: "of_int p < (2::rat) powi (bitlen p)"
  proof -
    have "(of_int p :: rat) < of_int (2 ^ nat (bitlen p))" using pb(2) by (simp only: of_int_less_iff)
    also have "\<dots> = 2 powi (bitlen p)" using bp by (simp add: power_int_def)
    finally show ?thesis .
  qed
  have rl: "(2::rat) powi (bitlen r - 1) \<le> of_int r"
  proof -
    have "(2::rat) powi (bitlen r - 1) = 2 ^ nat (bitlen r - 1)"
      using br by (simp add: power_int_def)
    also have "\<dots> = of_int (2 ^ nat (bitlen r - 1))" by simp
    also have "\<dots> \<le> of_int r" using rb(1) by (simp only: of_int_le_iff)
    finally show ?thesis .
  qed
  have ru: "of_int r < (2::rat) powi (bitlen r)"
  proof -
    have "(of_int r :: rat) < of_int (2 ^ nat (bitlen r))" using rb(2) by (simp only: of_int_less_iff)
    also have "\<dots> = 2 powi (bitlen r)" using br by (simp add: power_int_def)
    finally show ?thesis .
  qed
  have rpos: "(0::rat) < of_int r" using r by simp
  have low: "(2::rat) powi (?e0 - 1) \<le> x"
  proof -
    have "(2::rat) powi (?e0 - 1) * of_int r \<le> 2 powi (?e0 - 1) * 2 powi (bitlen r)"
      using ru by (intro mult_left_mono) (simp_all add: less_imp_le)
    also have "\<dots> = 2 powi (bitlen p - 1)"
      by (simp add: power_int_add [symmetric])
    also have "\<dots> \<le> of_int p" by (rule pl)
    finally show ?thesis using rpos by (simp add: x pos_le_divide_eq)
  qed
  have up: "x < (2::rat) powi (?e0 + 1)"
  proof -
    have "of_int p < (2::rat) powi (bitlen p)" by (rule pu)
    also have "\<dots> = 2 powi (?e0 + 1) * 2 powi (bitlen r - 1)"
      by (simp add: power_int_add [symmetric])
    also have "\<dots> \<le> 2 powi (?e0 + 1) * of_int r"
      using rl by (intro mult_left_mono) simp_all
    finally show ?thesis using rpos by (simp add: x pos_divide_less_eq)
  qed
  have b: "binade x = (if 2 powi ?e0 \<le> x then ?e0 else ?e0 - 1)"
    by (simp add: binade_def q Let_def)
  show "2 powi (binade x) \<le> x" using low by (simp add: b)
  show "x < 2 powi (binade x + 1)" using up by (auto simp: b not_le)
qed


lemma two_powi_less_cancel:
  assumes "(2::rat) powi m < 2 powi n"
  shows "m < n"
proof (rule ccontr)
  assume "\<not> m < n"
  then have "n \<le> m" by simp
  then have "(2::rat) powi n \<le> 2 powi m" by (intro power_int_increasing) simp_all
  with assms show False by simp
qed


lemma to_double_error:
  "\<bar>to_double x - x\<bar> \<le> \<bar>x\<bar> / 2 ^ 53"
proof (cases "x = 0")
  case True
  then show ?thesis by (simp add: to_double_def)
next
  case False
  let ?a = "\<bar>x\<bar>"
  let ?u = "(2::rat) powi (binade ?a - 52)"
  have apos: "0 < ?a" using False by simp
  have upos: "0 < ?u" by (simp add: zero_less_power_int)
  have x: "x = sgn x * ?a" by (simp add: mult_sgn_abs)
  have d: "to_double x = sgn x * (of_int (rne (?a / ?u)) * ?u)"
    using False by (simp add: to_double_def Let_def mult.assoc)
  have "to_double x - x = sgn x * (of_int (rne (?a / ?u)) * ?u) - sgn x * ?a"
    by (simp only: d mult_sgn_abs)
  then have "to_double x - x = sgn x * (of_int (rne (?a / ?u)) * ?u - ?a)"
    by (simp only: right_diff_distrib)
  then have "\<bar>to_double x - x\<bar> = \<bar>of_int (rne (?a / ?u)) * ?u - ?a\<bar>"
    using False by (simp add: abs_mult abs_sgn_eq)
  also have "of_int (rne (?a / ?u)) * ?u - ?a = (of_int (rne (?a / ?u)) - ?a / ?u) * ?u"
    using upos by (simp add: algebra_simps)
  also have "\<bar>\<dots>\<bar> = \<bar>of_int (rne (?a / ?u)) - ?a / ?u\<bar> * ?u"
    using upos by (simp add: abs_mult)
  also have "\<dots> \<le> 1 / 2 * ?u"
    using rne_error [of "?a / ?u"] upos by (intro mult_right_mono) simp_all
  also have "\<dots> = 2 powi (binade ?a) / 2 ^ 53"
  proof -
    have "(2::rat) powi (binade ?a - 52) = 2 powi (binade ?a) / 2 ^ 52"
      by (simp add: power_int_diff)
    then show ?thesis by simp
  qed
  also have "\<dots> \<le> ?a / 2 ^ 53"
    using binade_bounds(1) [OF apos] by (simp add: divide_right_mono)
  finally show ?thesis .
qed

lemma to_double_of_int:
  assumes "\<bar>n\<bar> < 2 ^ 53"
  shows "to_double (of_int n) = of_int n"
proof (cases "n = 0")
  case True
  then show ?thesis by (simp add: to_double_def)
next
  case False
  let ?a = "\<bar>of_int n :: rat\<bar>"
  let ?e = "binade ?a"
  have apos: "0 < ?a" using False by simp
  have a: "?a = of_int \<bar>n\<bar>" by simp
  have "(2::rat) powi ?e \<le> ?a" by (rule binade_bounds(1) [OF apos])
  also have "?a < 2 ^ 53"
  proof -
    have "(of_int \<bar>n\<bar> :: rat) < of_int (2 ^ 53)" using assms by (simp only: of_int_less_iff)
    then show ?thesis by simp
  qed
  finally have "(2::rat) powi ?e < 2 powi 53" by simp
  then have "?e < 53" by (rule two_powi_less_cancel)
  then have e: "?e \<le> 52" by simp
  let ?k = "nat (52 - ?e)"
  have u: "(2::rat) powi (?e - 52) = 1 / 2 ^ ?k"
  proof -
    have "int ?k = 52 - ?e" using e by simp
    then have k: "(2::rat) ^ ?k = 2 powi (52 - ?e)" by (metis power_int_of_nat)
    have "(2::rat) powi (?e - 52) * 2 powi (52 - ?e) = 1"
      by (simp add: power_int_add [symmetric])
    then have "(2::rat) powi (?e - 52) * 2 ^ ?k = 1" by (simp only: k)
    then show ?thesis by (simp add: field_simps)
  qed
  have "?a / (1 / 2 ^ ?k) = of_int (\<bar>n\<bar> * 2 ^ ?k)"
    by simp
  then have r: "rne (?a / (1 / 2 ^ ?k)) = \<bar>n\<bar> * 2 ^ ?k"
    by (simp only: rne_of_int)
  have "to_double (of_int n) =
      sgn (of_int n) * of_int (rne (?a / 2 powi (?e - 52))) * 2 powi (?e - 52)"
    using False by (simp add: to_double_def Let_def)
  also have "\<dots> = sgn (of_int n) * of_int (\<bar>n\<bar> * 2 ^ ?k) * (1 / 2 ^ ?k)"
    by (simp only: u r)
  also have "\<dots> = sgn (of_int n) * ?a" by simp
  also have "\<dots> = of_int n" by (simp only: mult_sgn_abs)
  finally show ?thesis .
qed

lemma floor_thousandth:
  assumes "\<bar>n\<bar> < 2 ^ 53"
  shows "\<lfloor>to_double (of_int n / 1000)\<rfloor> = n div 1000"
proof (cases "n mod 1000 = 0")
  case True
  then have n: "n = (n div 1000) * 1000" by auto
  have "\<bar>n div 1000\<bar> < 2 ^ 53" using assms n by linarith
  from to_double_of_int [OF this]
  have "to_double (of_int n / 1000) = of_int (n div 1000)"
    by (subst n) simp
  then show ?thesis by simp
next
  case False
  let ?v = "of_int n / 1000 :: rat"
  let ?q = "n div 1000"
  have r: "1 \<le> n mod 1000" "n mod 1000 \<le> 999" using False
    by (smt (verit) pos_mod_sign pos_mod_bound)+
  have n: "n = ?q * 1000 + n mod 1000" by simp
  have eq: "(of_int n :: rat) = of_int ?q * 1000 + of_int (n mod 1000)"
    by (metis n of_int_add of_int_mult of_int_numeral)
  have v: "?v = of_int ?q + of_int (n mod 1000) / 1000"
  proof -
    have "?v = (of_int ?q * 1000 + of_int (n mod 1000)) / 1000" by (simp only: eq)
    also have "\<dots> = of_int ?q + of_int (n mod 1000) / 1000" by (simp add: add_divide_distrib)
    finally show ?thesis .
  qed
  have lo: "of_int ?q + 1 / 1000 \<le> ?v"
    using r(1) by (subst v) (simp add: field_simps)
  have hi: "?v \<le> of_int ?q + 999 / 1000"
    using r(2) by (subst v) (simp add: field_simps)
  have "\<bar>?v\<bar> < 2 ^ 53 / 1000"
  proof -
    have "(of_int \<bar>n\<bar> :: rat) < of_int (2 ^ 53)" using assms by (simp only: of_int_less_iff)
    then show ?thesis by (simp add: field_simps)
  qed
  then have "\<bar>?v\<bar> / 2 ^ 53 < 1 / 1000" by (simp add: field_simps)
  with to_double_error [of ?v] have err: "\<bar>to_double ?v - ?v\<bar> < 1 / 1000" by simp
  from err have "to_double ?v - ?v < 1 / 1000" "- (1 / 1000) < to_double ?v - ?v"
    by (simp_all only: abs_less_iff minus_diff_eq) linarith+
  with lo hi have "of_int ?q \<le> to_double ?v" "to_double ?v < of_int ?q + 1"
    by linarith+
  then show ?thesis by (simp add: floor_unique)
qed




section \<open>Properties of the ledger\<close>

subsection \<open>Auxiliary facts\<close>

lemma emit_simps [simp]:
  "calls (emit e s) = calls s" "balance (emit e s) = balance s" "owner (emit e s) = owner s"
  "transfers (emit e s) = transfers s" "events (emit e s) = events s @ [e]"
  by (simp_all add: emit_def)

lemma before_transfer_calls [simp]:
  "calls (before_transfer s cid) =
     (calls s)(cid := (calls s cid)\<lparr>isCompleted := True, isPaid := True, amount := 0\<rparr>)"
  by (simp add: before_transfer_def Let_def)

lemma before_transfer_balance [simp]:
  "balance (before_transfer s cid) = balance s - unat (amount (calls s cid))"
  by (simp add: before_transfer_def Let_def)

lemma before_transfer_transfers [simp]:
  "transfers (before_transfer s cid) =
     transfers s @ [(developer (calls s cid), amount (calls s cid))]"
  by (simp add: before_transfer_def Let_def)

lemma createCall_Inr:
  assumes "createCall now s sender val cid dev dur = Inr s'"
  shows "val \<noteq> 0" "dur \<noteq> 0" "dev \<noteq> 0" "sender \<noteq> dev"
    "client (calls s cid) = 0 \<or> isCompleted (calls s cid) \<and> \<not> isPaid (calls s cid)"
    "calls s' = (calls s)(cid := \<lparr>client = sender, developer = dev, amount = val,
       duration = dur, startTime = 0, isActive = False, isCompleted = False, isPaid = False\<rparr>)"
    "balance s' = balance s + unat val"
    "events s' = events s @ [Debug ''Creating call'' cid, CallCreated cid sender dev val dur now]"
    "transfers s' = transfers s" "owner s' = owner s"
  using assms by (auto simp: createCall_def Let_def split: if_splits)

lemma startCall_Inr:
  assumes "startCall now s sender cid = Inr s'"
  shows "client (calls s cid) \<noteq> 0" "\<not> isActive (calls s cid)" "\<not> isCompleted (calls s cid)"
    "calls s' = (calls s)(cid := (calls s cid)\<lparr>isActive := True, startTime := now\<rparr>)"
    "balance s' = balance s"
    "events s' = events s @ [Debug ''Starting call'' cid, CallStarted cid now]"
    "transfers s' = transfers s" "owner s' = owner s"
  using assms by (auto simp: startCall_def Let_def split: if_splits)

lemma completeCall_Inr:
  assumes "completeCall recipient now s sender cid = Inr s'"
  shows "client (calls s cid) \<noteq> 0" "developer (calls s cid) = sender"
    "\<not> isCompleted (calls s cid)" "\<not> isPaid (calls s cid)" "amount (calls s cid) \<noteq> 0"
    "unat (amount (calls s cid)) \<le> balance s"
    "\<exists>s2. recipient (before_transfer (emit (Debug ''Completing call'' cid) s) cid) = Some s2 \<and>
        s' = emit (PaymentReleased cid (developer (calls s2 cid)) (amount (calls s cid)))
               (emit (CallCompleted cid now) s2)"
  using assms by (auto simp: completeCall_def Let_def split: if_splits option.splits)

lemma is_payment_simps [simp]:
  "is_payment cid (PaymentReleased c d a) = (c = cid)"
  "\<not> is_payment cid (CallCreated c cl d a du t)"
  "\<not> is_payment cid (CallStarted c t)"
  "\<not> is_payment cid (CallCompleted c t)"
  "\<not> is_payment cid (Debug m c)"
  by (simp_all add: is_payment_def)

lemma payments_emit [simp]:
  "payments cid (emit e s) = payments cid s @ (if is_payment cid e then [e] else [])"
  by (simp add: payments_def)

lemma payments_before_transfer [simp]:
  "payments cid (before_transfer s c) = payments cid s"
  by (simp add: payments_def before_transfer_def Let_def)

lemma booked_call:
  "calls booked 7 = \<lparr>client = 2, developer = 3, amount = 100, duration = 60, startTime = 0,
     isActive = False, isCompleted = False, isPaid = False\<rparr>"
  "balance booked = 100"
  by (simp_all add: booked_def transact_def createCall_def Let_def deploy_def no_call_def)

lemma started_call:
  "calls started 7 = \<lparr>client = 2, developer = 3, amount = 100, duration = 60, startTime = 6,
     isActive = True, isCompleted = False, isPaid = False\<rparr>"
  "balance started = 100"
  by (simp_all add: started_def transact_def startCall_def Let_def booked_call)

lemma paid_out_call:
  "calls paid_out 7 = \<lparr>client = 2, developer = 3, amount = 0, duration = 60, startTime = 0,
     isActive = False, isCompleted = True, isPaid = True\<rparr>"
  "balance paid_out = 0"
  by (simp_all add: paid_out_def transact_def completeCall_def Let_def booked_call)

lemma started_paid_call:
  "calls started_paid 7 = \<lparr>client = 2, developer = 3, amount = 0, duration = 60, startTime = 6,
     isActive = True, isCompleted = True, isPaid = True\<rparr>"
  by (simp add: started_paid_def transact_def completeCall_def Let_def started_call)

lemma paid_out_exec:
  "exec 8 booked (CompleteCall 3 7 [] True) = Inr paid_out"
  by (simp add: paid_out_def transact_def completeCall_def Let_def booked_call)

lemma booked_state:
  "calls booked = (\<lambda>_. no_call)(7 := \<lparr>client = 2, developer = 3, amount = 100, duration = 60,
     startTime = 0, isActive = False, isCompleted = False, isPaid = False\<rparr>)"
  "events booked = [Debug ''Creating call'' 7, CallCreated 7 2 3 100 60 5]"
  "transfers booked = []"
  by (simp_all add: booked_def transact_def createCall_def Let_def deploy_def no_call_def)

lemma booked_twice_call:
  "calls booked_twice 7 = \<lparr>client = 2, developer = 3, amount = 100, duration = 60, startTime = 0,
     isActive = False, isCompleted = False, isPaid = False\<rparr>"
  "calls booked_twice 8 = \<lparr>client = 2, developer = 3, amount = 100, duration = 60, startTime = 0,
     isActive = False, isCompleted = False, isPaid = False\<rparr>"
  "balance booked_twice = 200"
  "payments c booked_twice = []"
  "transfers booked_twice = []"
  by (simp_all add: booked_twice_def transact_def createCall_def Let_def booked_call
        booked_state no_call_def payments_def)

lemma paid_once_exec:
  "exec 8 booked_twice (CompleteCall 3 7 [CompleteCall 3 7 [] True] True) = Inr paid_once"
  by (simp add: paid_once_def transact_def completeCall_def Let_def booked_twice_call)

lemma paid_once_call:
  "calls paid_once 7 = \<lparr>client = 2, developer = 3, amount = 0, duration = 60, startTime = 0,
     isActive = False, isCompleted = True, isPaid = True\<rparr>"
  "calls paid_once 8 = \<lparr>client = 2, developer = 3, amount = 100, duration = 60, startTime = 0,
     isActive = False, isCompleted = False, isPaid = False\<rparr>"
  "balance paid_once = 100"
  "transfers paid_once = [(3, 100)]"
  by (simp_all add: paid_once_def transact_def completeCall_def Let_def booked_twice_call)

lemma unpaid_call:
  "calls unpaid 7 = \<lparr>client = 2, developer = 3, amount = 100, duration = 60, startTime = 0,
     isActive = False, isCompleted = True, isPaid = False\<rparr>"
  by (simp add: unpaid_def booked_call)

subsection \<open>Invariants of the transactions\<close>

lemma settled_frozen:
  "exec now s t = Inr s' \<Longrightarrow> client (calls s cid) \<noteq> 0 \<Longrightarrow> isCompleted (calls s cid) \<Longrightarrow>
     isPaid (calls s cid) \<Longrightarrow> calls s' cid = calls s cid \<and> payments cid s' = payments cid s"
  "client (calls s cid) \<noteq> 0 \<Longrightarrow> isCompleted (calls s cid) \<Longrightarrow> isPaid (calls s cid) \<Longrightarrow>
     calls (reenter now s ts) cid = calls s cid \<and> payments cid (reenter now s ts) = payments cid s"
proof (induction now s t and now s ts arbitrary: s' rule: exec_reenter.induct)
  case (1 now s sender val callId dev dur)
  from createCall_Inr [OF "1.prems"(1) [simplified]] "1.prems"(2-)
  show ?case by (auto simp: payments_def)
next
  case (2 now s sender callId)
  from startCall_Inr [OF "2.prems"(1) [simplified]] "2.prems"(2-)
  show ?case by (auto simp: payments_def)
next
  case (3 now s sender callId inner accepts)
  let ?s1 = "before_transfer (emit (Debug ''Completing call'' callId) s) callId"
  from "3.prems"(1) have c: "completeCall (\<lambda>s'. if accepts then Some (reenter now s' inner) else None)
       now s sender callId = Inr s'" by simp
  from completeCall_Inr(3) [OF c] "3.prems" have ne: "callId \<noteq> cid" by auto
  from completeCall_Inr(7) [OF c] have acc: accepts
    and s': "s' = emit (PaymentReleased callId (developer (calls (reenter now ?s1 inner) callId))
        (amount (calls s callId))) (emit (CallCompleted callId now) (reenter now ?s1 inner))"
    by (auto split: if_splits)
  have "calls (reenter now ?s1 inner) cid = calls ?s1 cid \<and>
        payments cid (reenter now ?s1 inner) = payments cid ?s1"
    using "3.IH" [OF acc, of ?s1] "3.prems"(2-) ne by simp
  then show ?case using ne by (simp add: s')
next
  case (4 now s)
  then show ?case by simp
next
  case (5 now s t ts)
  show ?case
  proof (cases "exec now s t")
    case (Inl e)
    then show ?thesis using "5.IH"(2) "5.prems" by simp
  next
    case (Inr s1)
    from "5.IH"(1) [OF Inr "5.prems"] have eq: "calls s1 cid = calls s cid" "payments cid s1 = payments cid s"
      by simp_all
    then show ?thesis using "5.IH"(2) "5.prems" Inr by simp
  qed
qed

lemma flags_agree:
  "exec now s t = Inr s' \<Longrightarrow> isCompleted (calls s cid) = isPaid (calls s cid) \<Longrightarrow>
     isCompleted (calls s' cid) = isPaid (calls s' cid)"
  "isCompleted (calls s cid) = isPaid (calls s cid) \<Longrightarrow>
     isCompleted (calls (reenter now s ts) cid) = isPaid (calls (reenter now s ts) cid)"
proof (induction now s t and now s ts arbitrary: s' rule: exec_reenter.induct)
  case (1 now s sender val callId dev dur)
  from createCall_Inr(6) [OF "1.prems"(1) [simplified]] "1.prems"(2)
  show ?case by auto
next
  case (2 now s sender callId)
  from startCall_Inr(4) [OF "2.prems"(1) [simplified]] "2.prems"(2)
  show ?case by auto
next
  case (3 now s sender callId inner accepts)
  let ?s1 = "before_transfer (emit (Debug ''Completing call'' callId) s) callId"
  from "3.prems"(1) have c: "completeCall (\<lambda>s'. if accepts then Some (reenter now s' inner) else None)
       now s sender callId = Inr s'" by simp
  from completeCall_Inr(7) [OF c] have acc: accepts
    and s': "s' = emit (PaymentReleased callId (developer (calls (reenter now ?s1 inner) callId))
        (amount (calls s callId))) (emit (CallCompleted callId now) (reenter now ?s1 inner))"
    by (auto split: if_splits)
  have "isCompleted (calls ?s1 cid) = isPaid (calls ?s1 cid)"
    using "3.prems"(2) by simp
  from "3.IH" [OF acc this] show ?case by (simp add: s')
next
  case (4 now s)
  then show ?case by simp
next
  case (5 now s t ts)
  show ?case
  proof (cases "exec now s t")
    case (Inl e)
    then show ?thesis using "5.IH"(2) "5.prems" by simp
  next
    case (Inr s1)
    from "5.IH"(1) [OF Inr "5.prems"] show ?thesis using "5.IH"(2) Inr by simp
  qed
qed

lemma unlogged_emit [simp]:
  "unlogged (emit e s) = unlogged s + released e - escrowed e"
  by (simp add: unlogged_def)

lemma unlogged_before_transfer:
  "unat (amount (calls s cid)) \<le> balance s \<Longrightarrow>
     unlogged (before_transfer s cid) = unlogged s - uint (amount (calls s cid))"
  by (simp add: unlogged_def before_transfer_def Let_def released_def escrowed_def emit_def)

lemma unlogged_conserved:
  "exec now s t = Inr s' \<Longrightarrow> unlogged s' = unlogged s"
  "unlogged (reenter now s ts) = unlogged s"
proof (induction now s t and now s ts arbitrary: s' rule: exec_reenter.induct)
  case (1 now s sender val callId dev dur)
  from createCall_Inr(7,8) [OF "1.prems"(1) [simplified]]
  show ?case by (simp add: unlogged_def released_def escrowed_def)
next
  case (2 now s sender callId)
  from startCall_Inr(5,6) [OF "2.prems"(1) [simplified]]
  show ?case by (simp add: unlogged_def released_def escrowed_def)
next
  case (3 now s sender callId inner accepts)
  let ?s0 = "emit (Debug ''Completing call'' callId) s"
  let ?s1 = "before_transfer ?s0 callId"
  from "3.prems"(1) have c: "completeCall (\<lambda>s'. if accepts then Some (reenter now s' inner) else None)
       now s sender callId = Inr s'" by simp
  from completeCall_Inr(7) [OF c] have acc: accepts
    and s': "s' = emit (PaymentReleased callId (developer (calls (reenter now ?s1 inner) callId))
        (amount (calls s callId))) (emit (CallCompleted callId now) (reenter now ?s1 inner))"
    by (auto split: if_splits)
  have "unlogged ?s1 = unlogged ?s0 - uint (amount (calls ?s0 callId))"
    using completeCall_Inr(6) [OF c] by (intro unlogged_before_transfer) simp
  then show ?case using "3.IH" [OF acc, of ?s1]
    by (simp add: s' released_def escrowed_def)
next
  case (4 now s)
  then show ?case by simp
next
  case (5 now s t ts)
  then show ?case by (cases "exec now s t") simp_all
qed

lemma transact_cases:
  "transact s bt = s \<or> exec (fst bt) s (snd bt) = Inr (transact s bt)"
  by (cases "exec (fst bt) s (snd bt)") (simp_all add: transact_def)

lemma run_Nil [simp]: "run s [] = s"
  by (simp add: run_def)

lemma run_Cons [simp]: "run s (bt # txs) = run (transact s bt) txs"
  by (simp add: run_def)

lemma settled_run:
  "client (calls s cid) \<noteq> 0 \<Longrightarrow> isCompleted (calls s cid) \<Longrightarrow> isPaid (calls s cid) \<Longrightarrow>
     calls (run s txs) cid = calls s cid \<and> payments cid (run s txs) = payments cid s"
proof (induction txs arbitrary: s)
  case Nil
  then show ?case by simp
next
  case (Cons bt txs)
  have "calls (transact s bt) cid = calls s cid \<and> payments cid (transact s bt) = payments cid s"
    using transact_cases [of s bt] settled_frozen(1) [of "fst bt" s "snd bt" "transact s bt" cid]
      Cons.prems by auto
  then show ?case using Cons.IH [of "transact s bt"] Cons.prems by simp
qed

lemma unlogged_run: "unlogged (run s txs) = unlogged s"
proof (induction txs arbitrary: s)
  case Nil
  then show ?case by simp
next
  case (Cons bt txs)
  have "unlogged (transact s bt) = unlogged s"
    using transact_cases [of s bt] unlogged_conserved(1) [of "fst bt" s "snd bt" "transact s bt"]
    by auto
  then show ?case using Cons.IH [of "transact s bt"] by simp
qed

lemma reachable_transact: "reachable s \<Longrightarrow> reachable (transact s bt)"
  using transact_cases [of s bt] by (auto intro: reachable.executed)

lemma reachable_run: "reachable s \<Longrightarrow> reachable (run s txs)"
  by (induction txs arbitrary: s) (simp_all add: reachable_transact)

lemma reachable_flags_agree:
  "reachable s \<Longrightarrow> isCompleted (calls s cid) = isPaid (calls s cid)"
proof (induction rule: reachable.induct)
  case (deployed sender)
  show ?case by (simp add: deploy_def no_call_def)
next
  case (executed s now t s')
  then show ?case using flags_agree(1) by blast
next
  case (entered s now sender callId s')
  then show ?case by simp
qed

lemma transfers_grow:
  "exec now s t = Inr s' \<Longrightarrow> \<exists>later. transfers s' = transfers s @ later"
  "\<exists>later. transfers (reenter now s ts) = transfers s @ later"
proof (induction now s t and now s ts arbitrary: s' rule: exec_reenter.induct)
  case (1 now s sender val callId dev dur)
  from createCall_Inr(9) [OF "1.prems"(1) [simplified]] show ?case by simp
next
  case (2 now s sender callId)
  from startCall_Inr(7) [OF "2.prems"(1) [simplified]] show ?case by simp
next
  case (3 now s sender callId inner accepts)
  let ?s1 = "before_transfer (emit (Debug ''Completing call'' callId) s) callId"
  from "3.prems"(1) have c: "completeCall (\<lambda>s'. if accepts then Some (reenter now s' inner) else None)
       now s sender callId = Inr s'" by simp
  from completeCall_Inr(7) [OF c] have acc: accepts
    and s': "s' = emit (PaymentReleased callId (developer (calls (reenter now ?s1 inner) callId))
        (amount (calls s callId))) (emit (CallCompleted callId now) (reenter now ?s1 inner))"
    by (auto split: if_splits)
  from "3.IH" [OF acc, of ?s1] obtain later where
    "transfers (reenter now ?s1 inner) = transfers ?s1 @ later" by blast
  then show ?case by (simp add: s')
next
  case (4 now s)
  then show ?case by simp
next
  case (5 now s t ts)
  show ?case
  proof (cases "exec now s t")
    case (Inl e)
    then show ?thesis using "5.IH"(2) by simp
  next
    case (Inr s1)
    from "5.IH"(1) [OF Inr] obtain l1 where "transfers s1 = transfers s @ l1" by blast
    moreover from "5.IH"(2) Inr obtain l2 where
      "transfers (reenter now s (t # ts)) = transfers s1 @ l2" by auto
    ultimately show ?thesis by simp
  qed
qed

lemma exec_completeCall_Inr:
  assumes "exec now s (CompleteCall sender callId inner accepts) = Inr s1"
  shows "client (calls s callId) \<noteq> 0" "developer (calls s callId) = sender"
    "\<not> isCompleted (calls s callId)" "\<not> isPaid (calls s callId)" "amount (calls s callId) \<noteq> 0"
    "unat (amount (calls s callId)) \<le> balance s" "accepts"
    "s1 = emit (PaymentReleased callId
                 (developer (calls (reenter now
                    (before_transfer (emit (Debug ''Completing call'' callId) s) callId) inner) callId))
                 (amount (calls s callId)))
            (emit (CallCompleted callId now)
               (reenter now (before_transfer (emit (Debug ''Completing call'' callId) s) callId) inner))"
proof -
  from assms have c: "completeCall (\<lambda>s'. if accepts then Some (reenter now s' inner) else None)
       now s sender callId = Inr s1" by simp
  from completeCall_Inr(1-6) [OF c]
  show "client (calls s callId) \<noteq> 0" "developer (calls s callId) = sender"
    "\<not> isCompleted (calls s callId)" "\<not> isPaid (calls s callId)" "amount (calls s callId) \<noteq> 0"
    "unat (amount (calls s callId)) \<le> balance s" by simp_all
  from completeCall_Inr(7) [OF c]
  show "accepts"
    "s1 = emit (PaymentReleased callId
                 (developer (calls (reenter now
                    (before_transfer (emit (Debug ''Completing call'' callId) s) callId) inner) callId))
                 (amount (calls s callId)))
            (emit (CallCompleted callId now)
               (reenter now (before_transfer (emit (Debug ''Completing call'' callId) s) callId) inner))"
    by (auto split: if_splits)
qed

lemma completeCall_once_step:
  assumes "exec now s (CompleteCall sender callId inner accepts) = Inr s1"
  shows "calls s1 callId = (calls s callId)\<lparr>isCompleted := True, isPaid := True, amount := 0\<rparr>"
    "payments callId s1 = payments callId s @
       [PaymentReleased callId (developer (calls s callId)) (amount (calls s callId))]"
    "\<exists>later. transfers s1 =
       transfers s @ (developer (calls s callId), amount (calls s callId)) # later"
    "inner = [] \<longrightarrow> balance s1 = balance s - unat (amount (calls s callId)) \<and>
       transfers s1 = transfers s @ [(developer (calls s callId), amount (calls s callId))]"
proof -
  let ?s0 = "before_transfer (emit (Debug ''Completing call'' callId) s) callId"
  note f = exec_completeCall_Inr [OF assms]
  have frozen: "calls (reenter now ?s0 inner) callId = calls ?s0 callId \<and>
        payments callId (reenter now ?s0 inner) = payments callId ?s0"
    using f(1) by (intro settled_frozen(2)) simp_all
  show "calls s1 callId = (calls s callId)\<lparr>isCompleted := True, isPaid := True, amount := 0\<rparr>"
    using frozen by (simp add: f(8))
  show "payments callId s1 = payments callId s @
       [PaymentReleased callId (developer (calls s callId)) (amount (calls s callId))]"
    using frozen by (simp add: f(8))
  from transfers_grow(2) [of now ?s0 inner] obtain later where
    "transfers (reenter now ?s0 inner) = transfers ?s0 @ later" by blast
  then show "\<exists>later. transfers s1 =
       transfers s @ (developer (calls s callId), amount (calls s callId)) # later"
    by (simp add: f(8))
  show "inner = [] \<longrightarrow> balance s1 = balance s - unat (amount (calls s callId)) \<and>
       transfers s1 = transfers s @ [(developer (calls s callId), amount (calls s callId))]"
    by (simp add: f(8))
qed

text \<open>An open record keeps its parties and its amount until it is settled.\<close>

lemma open_record_kept:
  "exec now s t = Inr s' \<Longrightarrow> client (calls s cid) \<noteq> 0 \<Longrightarrow> \<not> isCompleted (calls s cid) \<Longrightarrow>
     client (calls s' cid) = client (calls s cid) \<and>
     developer (calls s' cid) = developer (calls s cid) \<and>
     (isCompleted (calls s' cid) \<and> isPaid (calls s' cid) \<or>
      \<not> isCompleted (calls s' cid) \<and> amount (calls s' cid) = amount (calls s cid))"
  "client (calls s cid) \<noteq> 0 \<Longrightarrow> \<not> isCompleted (calls s cid) \<Longrightarrow>
     client (calls (reenter now s ts) cid) = client (calls s cid) \<and>
     developer (calls (reenter now s ts) cid) = developer (calls s cid) \<and>
     (isCompleted (calls (reenter now s ts) cid) \<and> isPaid (calls (reenter now s ts) cid) \<or>
      \<not> isCompleted (calls (reenter now s ts) cid) \<and>
        amount (calls (reenter now s ts) cid) = amount (calls s cid))"
proof (induction now s t and now s ts arbitrary: s' rule: exec_reenter.induct)
  case (1 now s sender val callId dev dur)
  from createCall_Inr(5,6) [OF "1.prems"(1) [simplified]] "1.prems"(2-)
  show ?case by auto
next
  case (2 now s sender callId)
  from startCall_Inr(4) [OF "2.prems"(1) [simplified]] "2.prems"(2-)
  show ?case by auto
next
  case (3 now s sender callId inner accepts)
  let ?s0 = "before_transfer (emit (Debug ''Completing call'' callId) s) callId"
  note f = exec_completeCall_Inr [OF "3.prems"(1)]
  show ?case
  proof (cases "callId = cid")
    case True
    with completeCall_once_step(1) [OF "3.prems"(1)] show ?thesis by simp
  next
    case False
    with "3.IH" [OF f(7), of ?s0] "3.prems"(2-) show ?thesis by (simp add: f(8))
  qed
next
  case (4 now s)
  then show ?case by simp
next
  case (5 now s t ts)
  show ?case
  proof (cases "exec now s t")
    case (Inl e)
    then show ?thesis using "5.IH"(2) "5.prems" by simp
  next
    case (Inr s1)
    note step = "5.IH"(1) [OF Inr "5.prems"]
    have r: "reenter now s (t # ts) = reenter now s1 ts" using Inr by simp
    show ?thesis
    proof (cases "isCompleted (calls s1 cid)")
      case True
      with step "5.prems" have "client (calls s1 cid) \<noteq> 0" "isCompleted (calls s1 cid)"
        "isPaid (calls s1 cid)" by auto
      from settled_frozen(2) [OF this, of now ts] step True show ?thesis
        unfolding r by simp
    next
      case False
      with step "5.prems" have "client (calls s1 cid) \<noteq> 0" by simp
      from "5.IH"(2) [unfolded Inr, simplified, OF this False] step False show ?thesis
        unfolding r by auto
    qed
  qed
qed

lemma open_record_run:
  "client (calls s cid) \<noteq> 0 \<Longrightarrow> \<not> isCompleted (calls s cid) \<Longrightarrow>
     \<not> isCompleted (calls (run s txs) cid) \<Longrightarrow>
     client (calls (run s txs) cid) = client (calls s cid) \<and>
     developer (calls (run s txs) cid) = developer (calls s cid) \<and>
     amount (calls (run s txs) cid) = amount (calls s cid)"
proof (induction txs arbitrary: s)
  case Nil
  then show ?case by simp
next
  case (Cons bt txs)
  let ?s1 = "transact s bt"
  have step: "client (calls ?s1 cid) = client (calls s cid) \<and>
     developer (calls ?s1 cid) = developer (calls s cid) \<and>
     (isCompleted (calls ?s1 cid) \<and> isPaid (calls ?s1 cid) \<or>
      \<not> isCompleted (calls ?s1 cid) \<and> amount (calls ?s1 cid) = amount (calls s cid))"
    using transact_cases [of s bt] open_record_kept(1) [of "fst bt" s "snd bt" ?s1 cid]
      Cons.prems(1,2) by auto
  show ?case
  proof (cases "isCompleted (calls ?s1 cid)")
    case True
    with step Cons.prems(1) have "client (calls ?s1 cid) \<noteq> 0" "isCompleted (calls ?s1 cid)"
      "isPaid (calls ?s1 cid)" by auto
    from settled_run [OF this, of txs] True Cons.prems(3) show ?thesis by simp
  next
    case False
    with step Cons.prems(1) have "client (calls ?s1 cid) \<noteq> 0" by simp
    from Cons.IH [OF this False] Cons.prems(3) step False show ?thesis by simp
  qed
qed

text \<open>A logged payment for a call id means that its record is settled.\<close>

lemma payment_settles:
  "exec now s t = Inr s' \<Longrightarrow>
     (payments cid s \<noteq> [] \<longrightarrow>
        client (calls s cid) \<noteq> 0 \<and> isCompleted (calls s cid) \<and> isPaid (calls s cid)) \<Longrightarrow>
     (payments cid s' \<noteq> [] \<longrightarrow>
        client (calls s' cid) \<noteq> 0 \<and> isCompleted (calls s' cid) \<and> isPaid (calls s' cid))"
  "(payments cid s \<noteq> [] \<longrightarrow>
        client (calls s cid) \<noteq> 0 \<and> isCompleted (calls s cid) \<and> isPaid (calls s cid)) \<Longrightarrow>
     (payments cid (reenter now s ts) \<noteq> [] \<longrightarrow>
        client (calls (reenter now s ts) cid) \<noteq> 0 \<and> isCompleted (calls (reenter now s ts) cid) \<and>
        isPaid (calls (reenter now s ts) cid))"
proof (induction now s t and now s ts arbitrary: s' rule: exec_reenter.induct)
  case (1 now s sender val callId dev dur)
  from createCall_Inr(5,6,8) [OF "1.prems"(1) [simplified]] "1.prems"(2)
  show ?case by (auto simp: payments_def)
next
  case (2 now s sender callId)
  from startCall_Inr(3,4,6) [OF "2.prems"(1) [simplified]] "2.prems"(2)
  show ?case by (auto simp: payments_def)
next
  case (3 now s sender callId inner accepts)
  let ?s0 = "before_transfer (emit (Debug ''Completing call'' callId) s) callId"
  note f = exec_completeCall_Inr [OF "3.prems"(1)]
  show ?case
  proof (cases "callId = cid")
    case True
    with completeCall_once_step(1) [OF "3.prems"(1)] f(1) show ?thesis by simp
  next
    case False
    with "3.IH" [OF f(7), of ?s0] "3.prems"(2) show ?thesis by (simp add: f(8))
  qed
next
  case (4 now s)
  then show ?case by simp
next
  case (5 now s t ts)
  show ?case
  proof (cases "exec now s t")
    case (Inl e)
    then show ?thesis using "5.IH"(2) "5.prems" by simp
  next
    case (Inr s1)
    from "5.IH"(2) [unfolded Inr, simplified, OF "5.IH"(1) [OF Inr "5.prems"]] Inr
    show ?thesis by simp
  qed
qed

lemma reachable_payment_settles:
  "reachable s \<Longrightarrow> payments cid s \<noteq> [] \<Longrightarrow> isCompleted (calls s cid)"
proof -
  have "reachable s \<Longrightarrow> payments cid s \<noteq> [] \<longrightarrow>
        client (calls s cid) \<noteq> 0 \<and> isCompleted (calls s cid) \<and> isPaid (calls s cid)"
  proof (induction rule: reachable.induct)
    case (deployed sender)
    show ?case by (simp add: deploy_def payments_def)
  next
    case (executed s now t s')
    from payment_settles(1) [OF executed(2) executed(3)] show ?case .
  next
    case (entered s now sender callId s')
    from completeCall_Inr(1) [OF entered(2)] entered(3) show ?case by auto
  qed
  then show "reachable s \<Longrightarrow> payments cid s \<noteq> [] \<Longrightarrow> isCompleted (calls s cid)" by simp
qed

lemma reachable_examples:
  "reachable booked" "reachable started" "reachable paid_out" "reachable booked_twice"
  by (simp_all add: booked_def started_def paid_out_def booked_twice_def
        reachable_transact reachable.deployed)

lemma reachable_started_paid: "reachable started_paid"
  by (simp add: started_paid_def reachable_transact reachable_examples)

subsection \<open>createCall rejects invalid input\<close>

text \<open>
  Claim C4. When the attached value is zero, or the duration is zero, or the developer is
  the null address, or the sender is the developer, \<open>createCall\<close> fails with
  \<open>InvalidAmount\<close>, \<open>InvalidDuration\<close>, \<open>InvalidDeveloper\<close> or \<open>SelfBookingNotAllowed\<close>
  respectively (the checks run in this order, and the first one that fails decides), and
  the transaction leaves the whole state as it was: the \<open>calls\<close> mapping, the balance,
  and the event log, from which the Debug event of the body is gone with the revert.
\<close>

theorem createCall_invalid_input:
  assumes "val = 0 \<or> dur = 0 \<or> dev = 0 \<or> sender = dev"
  shows "createCall now s sender val callId dev dur =
           Inl (if val = 0 then InvalidAmount val
                else if dur = 0 then InvalidDuration dur
                else if dev = 0 then InvalidDeveloper dev
                else SelfBookingNotAllowed sender) \<and>
         transact s (now, CreateCall sender val callId dev dur) = s"
proof -
  have "createCall now s sender val callId dev dur =
           Inl (if val = 0 then InvalidAmount val
                else if dur = 0 then InvalidDuration dur
                else if dev = 0 then InvalidDeveloper dev
                else SelfBookingNotAllowed sender)"
    using assms by (auto simp: createCall_def Let_def)
  then show ?thesis by (simp add: transact_def)
qed

theorem createCall_invalid_input_witness:
  "createCall 5 (deploy 1) 2 0 7 3 60 = Inl (InvalidAmount 0) \<and>
   createCall 5 (deploy 1) 2 100 7 3 0 = Inl (InvalidDuration 0) \<and>
   createCall 5 (deploy 1) 2 100 7 0 60 = Inl (InvalidDeveloper 0) \<and>
   createCall 5 (deploy 1) 2 100 7 2 60 = Inl (SelfBookingNotAllowed 2) \<and>
   transact (deploy 1) (5, CreateCall 2 0 7 3 60) = deploy 1 \<and>
   transact (deploy 1) (5, CreateCall 2 100 7 3 0) = deploy 1 \<and>
   transact (deploy 1) (5, CreateCall 2 100 7 0 60) = deploy 1 \<and>
   transact (deploy 1) (5, CreateCall 2 100 7 2 60) = deploy 1"
  using createCall_invalid_input [of 0 60 3 2 5 "deploy 1" 7]
    createCall_invalid_input [of 100 0 3 2 5 "deploy 1" 7]
    createCall_invalid_input [of 100 60 0 2 5 "deploy 1" 7]
    createCall_invalid_input [of 100 60 2 2 5 "deploy 1" 7]
  by simp

subsection \<open>startCall\<close>

text \<open>
  Claim C6, as stated, fails in its third clause: \<open>completeCall\<close> never clears
  \<open>isActive\<close>, so a call that was started and then completed is both active and
  completed. In \<open>started_paid\<close>, a reachable state, the record of call 7 has
  \<open>isCompleted = true\<close> and \<open>startCall\<close> fails with \<open>CallAlreadyStarted\<close>, where the
  claim says \<open>CallAlreadyCompleted\<close>.
\<close>

theorem startCall_completed_counterexample:
  "reachable started_paid \<and> doesCallExist started_paid 7 \<and>
   isCompleted (calls started_paid 7) \<and>
   startCall 9 started_paid 4 7 = Inl (CallAlreadyStarted 7) \<and>
   startCall 9 started_paid 4 7 \<noteq> Inl (CallAlreadyCompleted 7)"
  using reachable_started_paid
  by (simp add: doesCallExist_def started_paid_call startCall_def Let_def)

text \<open>
  Claim C6, amended. \<open>startCall\<close> fails with \<open>CallNotFound\<close> when no record exists,
  with \<open>CallAlreadyStarted\<close> when the record is active (completed or not), and with
  \<open>CallAlreadyCompleted\<close> when it is completed and not active. Otherwise it succeeds,
  for any sender: it sets \<open>isActive\<close> and sets \<open>startTime\<close> to the block time, and
  leaves the other fields of the record, the other records and the balance as they
  were. The sender plays no part in the result.
\<close>

theorem startCall_behaviour:
  "(\<not> doesCallExist s callId \<longrightarrow> startCall now s sender callId = Inl (CallNotFound callId)) \<and>
   (doesCallExist s callId \<and> isActive (calls s callId) \<longrightarrow>
      startCall now s sender callId = Inl (CallAlreadyStarted callId)) \<and>
   (doesCallExist s callId \<and> \<not> isActive (calls s callId) \<and> isCompleted (calls s callId) \<longrightarrow>
      startCall now s sender callId = Inl (CallAlreadyCompleted callId)) \<and>
   (doesCallExist s callId \<and> \<not> isActive (calls s callId) \<and> \<not> isCompleted (calls s callId) \<longrightarrow>
      (\<exists>s'. startCall now s sender callId = Inr s' \<and>
         calls s' callId = (calls s callId)\<lparr>isActive := True, startTime := now\<rparr> \<and>
         isActive (calls s' callId) \<and> startTime (calls s' callId) = now \<and>
         client (calls s' callId) = client (calls s callId) \<and>
         developer (calls s' callId) = developer (calls s callId) \<and>
         amount (calls s' callId) = amount (calls s callId) \<and>
         duration (calls s' callId) = duration (calls s callId) \<and>
         isCompleted (calls s' callId) = isCompleted (calls s callId) \<and>
         isPaid (calls s' callId) = isPaid (calls s callId) \<and>
         (\<forall>c. c \<noteq> callId \<longrightarrow> calls s' c = calls s c) \<and>
         balance s' = balance s \<and> transfers s' = transfers s \<and>
         events s' = events s @ [Debug ''Starting call'' callId, CallStarted callId now])) \<and>
   startCall now s sender callId = startCall now s sender' callId"
  by (simp add: startCall_def doesCallExist_def Let_def)

theorem startCall_behaviour_witness:
  "startCall 9 (deploy 1) 4 7 = Inl (CallNotFound 7) \<and>
   startCall 9 started 4 7 = Inl (CallAlreadyStarted 7) \<and>
   startCall 9 paid_out 4 7 = Inl (CallAlreadyCompleted 7) \<and>
   (\<exists>s'. startCall 9 booked 4 7 = Inr s' \<and> isActive (calls s' 7) \<and> startTime (calls s' 7) = 9 \<and>
      amount (calls s' 7) = 100 \<and> balance s' = 100)"
proof -
  have "\<not> doesCallExist (deploy 1) 7"
    by (simp add: doesCallExist_def deploy_def no_call_def)
  moreover have "doesCallExist started 7 \<and> isActive (calls started 7)"
    by (simp add: doesCallExist_def started_call)
  moreover have "doesCallExist paid_out 7 \<and> \<not> isActive (calls paid_out 7) \<and>
      isCompleted (calls paid_out 7)"
    by (simp add: doesCallExist_def paid_out_call)
  moreover have "doesCallExist booked 7 \<and> \<not> isActive (calls booked 7) \<and>
      \<not> isCompleted (calls booked 7)"
    by (simp add: doesCallExist_def booked_call)
  ultimately show ?thesis
    using startCall_behaviour [of "deploy 1" 7 9 4 4]
      startCall_behaviour [of started 7 9 4 4]
      startCall_behaviour [of paid_out 7 9 4 4]
      startCall_behaviour [of booked 7 9 4 4]
    by (auto simp: booked_call)
qed

subsection \<open>createCall on an existing record\<close>

text \<open>
  Claim C2, as stated, fails: the claim lets \<open>createCall\<close> go through on an existing
  record that is completed and paid. In \<open>paid_out\<close> the record of call 7 exists, is
  completed and is paid, and \<open>createCall\<close> with valid arguments fails with
  \<open>CallAlreadyExists\<close>.
\<close>

theorem createCall_recreation_counterexample:
  "doesCallExist paid_out 7 \<and> isCompleted (calls paid_out 7) \<and> isPaid (calls paid_out 7) \<and>
   createCall 9 paid_out 2 100 7 3 60 = Inl (CallAlreadyExists 7)"
  by (simp add: doesCallExist_def paid_out_call createCall_def Let_def)

text \<open>
  Claim C2, amended. On a call id at which a record exists, \<open>createCall\<close> with valid
  arguments (non-zero value and duration, a developer that is neither null nor the
  sender) fails with \<open>CallAlreadyExists\<close> unless the record is completed and not paid;
  it goes through, and stores the fresh record, exactly when the record is completed and
  not paid.
\<close>

theorem createCall_existing_record:
  assumes "doesCallExist s callId" and "val \<noteq> 0" and "dur \<noteq> 0" and "dev \<noteq> 0"
    and "sender \<noteq> dev"
  shows "(createCall now s sender val callId dev dur = Inl (CallAlreadyExists callId)) =
           (\<not> (isCompleted (calls s callId) \<and> \<not> isPaid (calls s callId))) \<and>
         (\<exists>s'. createCall now s sender val callId dev dur = Inr s' \<and>
            calls s' callId = \<lparr>client = sender, developer = dev, amount = val, duration = dur,
              startTime = 0, isActive = False, isCompleted = False, isPaid = False\<rparr>) =
           (isCompleted (calls s callId) \<and> \<not> isPaid (calls s callId))"
  using assms by (auto simp: createCall_def doesCallExist_def Let_def)

theorem createCall_existing_record_witness:
  "doesCallExist booked 7 \<and> doesCallExist paid_out 7 \<and> doesCallExist unpaid 7 \<and>
   createCall 9 booked 4 50 7 3 60 = Inl (CallAlreadyExists 7) \<and>
   createCall 9 paid_out 4 50 7 3 60 = Inl (CallAlreadyExists 7) \<and>
   (\<exists>s'. createCall 9 unpaid 4 50 7 3 60 = Inr s' \<and> client (calls s' 7) = 4 \<and>
      amount (calls s' 7) = 50)"
proof -
  have "doesCallExist booked 7" "doesCallExist paid_out 7" "doesCallExist unpaid 7"
    by (simp_all add: doesCallExist_def booked_call paid_out_call unpaid_call)
  then show ?thesis
    using createCall_existing_record [of booked 7 50 60 3 4 9]
      createCall_existing_record [of paid_out 7 50 60 3 4 9]
      createCall_existing_record [of unpaid 7 50 60 3 4 9]
    by (auto simp: booked_call paid_out_call unpaid_call)
qed

subsection \<open>Completed means paid, and no call id is used twice\<close>

text \<open>
  Claim C10. Every sequence of transactions from the deployed contract leads to a
  reachable state, and in every reachable state (the states between transactions and the
  states in which the recipient of a payment gets control) each record has
  \<open>isCompleted = isPaid\<close>. So no existing record is completed and not paid, the branch
  of \<open>createCall\<close> that replaces an existing record is never taken, and \<open>createCall\<close> on
  a call id whose record exists fails, whatever its arguments.
\<close>

theorem reachable_completed_iff_paid:
  "reachable (run (deploy account) txs) \<and>
   (reachable s \<longrightarrow>
      isCompleted (calls s callId) = isPaid (calls s callId) \<and>
      \<not> (doesCallExist s callId \<and> isCompleted (calls s callId) \<and> \<not> isPaid (calls s callId)) \<and>
      (doesCallExist s callId \<longrightarrow>
         createCall now s sender val callId dev dur =
           Inl (if val = 0 then InvalidAmount val
                else if dur = 0 then InvalidDuration dur
                else if dev = 0 then InvalidDeveloper dev
                else if sender = dev then SelfBookingNotAllowed sender
                else CallAlreadyExists callId)))"
proof -
  have "reachable (run (deploy account) txs)"
    by (simp add: reachable_run reachable.deployed)
  moreover have "isCompleted (calls s callId) = isPaid (calls s callId)" if "reachable s"
    using that by (rule reachable_flags_agree)
  ultimately show ?thesis
    by (auto simp: createCall_def doesCallExist_def Let_def)
qed

theorem reachable_completed_iff_paid_witness:
  "reachable (run (deploy 1) [(5, CreateCall 2 100 7 3 60), (8, CompleteCall 3 7 [] True)]) \<and>
   reachable paid_out \<and> doesCallExist paid_out 7 \<and>
   isCompleted (calls paid_out 7) \<and> isPaid (calls paid_out 7) \<and>
   createCall 9 paid_out 2 100 7 3 60 = Inl (CallAlreadyExists 7) \<and>
   reachable booked \<and> doesCallExist booked 7 \<and>
   \<not> isCompleted (calls booked 7) \<and> \<not> isPaid (calls booked 7) \<and>
   createCall 9 booked 4 100 7 3 60 = Inl (CallAlreadyExists 7)"
  using reachable_completed_iff_paid
      [of 1 "[(5, CreateCall 2 100 7 3 60), (8, CompleteCall 3 7 [] True)]" paid_out 7 9 2 100 3 60]
    reachable_completed_iff_paid [of 1 "[]" booked 7 9 4 100 3 60]
    reachable_examples
  by (simp add: doesCallExist_def paid_out_call booked_call)

subsection \<open>completeCall when the transfer fails\<close>

text \<open>
  Claim C3. When the checks of \<open>completeCall\<close> pass, the recipient of the payment runs
  in a state in which the record is completed and paid, its amount is zero and the value
  has left the balance. When the transfer fails, \<open>completeCall\<close> reverts with
  \<open>PaymentFailed\<close> (for the developer and the amount), and the transaction leaves the
  whole state, so the three fields of the record and the balance, as it was.
\<close>

theorem completeCall_transfer_failure:
  assumes "doesCallExist s callId" and "developer (calls s callId) = sender"
    and "\<not> isCompleted (calls s callId)" and "\<not> isPaid (calls s callId)"
    and "amount (calls s callId) \<noteq> 0" and "unat (amount (calls s callId)) \<le> balance s"
  shows "(case recipient (before_transfer (emit (Debug ''Completing call'' callId) s) callId) of
            None \<Rightarrow> completeCall recipient now s sender callId =
                      Inl (PaymentFailed sender (amount (calls s callId)))
          | Some s2 \<Rightarrow> completeCall recipient now s sender callId =
                      Inr (emit (PaymentReleased callId (developer (calls s2 callId))
                                  (amount (calls s callId)))
                             (emit (CallCompleted callId now) s2))) \<and>
         isCompleted (calls (before_transfer (emit (Debug ''Completing call'' callId) s) callId) callId) \<and>
         isPaid (calls (before_transfer (emit (Debug ''Completing call'' callId) s) callId) callId) \<and>
         amount (calls (before_transfer (emit (Debug ''Completing call'' callId) s) callId) callId) = 0 \<and>
         balance (before_transfer (emit (Debug ''Completing call'' callId) s) callId) =
           balance s - unat (amount (calls s callId)) \<and>
         exec now s (CompleteCall sender callId inner False) =
           Inl (PaymentFailed sender (amount (calls s callId))) \<and>
         transact s (now, CompleteCall sender callId inner False) = s"
proof -
  have "exec now s (CompleteCall sender callId inner False) =
           Inl (PaymentFailed sender (amount (calls s callId)))"
    using assms by (simp add: completeCall_def doesCallExist_def Let_def)
  moreover from this have "transact s (now, CompleteCall sender callId inner False) = s"
    by (simp add: transact_def)
  ultimately show ?thesis
    using assms by (simp add: completeCall_def doesCallExist_def Let_def split: option.split)
qed

theorem completeCall_transfer_failure_witness:
  "doesCallExist booked 7 \<and> developer (calls booked 7) = 3 \<and> \<not> isCompleted (calls booked 7) \<and>
   \<not> isPaid (calls booked 7) \<and> amount (calls booked 7) \<noteq> 0 \<and>
   unat (amount (calls booked 7)) \<le> balance booked \<and>
   completeCall (\<lambda>s. None) 8 booked 3 7 = Inl (PaymentFailed 3 100) \<and>
   exec 8 booked (CompleteCall 3 7 [] False) = Inl (PaymentFailed 3 100) \<and>
   transact booked (8, CompleteCall 3 7 [] False) = booked \<and>
   balance (before_transfer (emit (Debug ''Completing call'' 7) booked) 7) = 0"
proof -
  have "doesCallExist booked 7 \<and> developer (calls booked 7) = 3 \<and> \<not> isCompleted (calls booked 7) \<and>
   \<not> isPaid (calls booked 7) \<and> amount (calls booked 7) \<noteq> 0 \<and>
   unat (amount (calls booked 7)) \<le> balance booked"
    by (simp add: doesCallExist_def booked_call)
  then show ?thesis
    using completeCall_transfer_failure [of booked 7 3 "\<lambda>s. None" 8 "[]"]
    by (simp add: booked_call)
qed

subsection \<open>completeCall pays once\<close>

text \<open>
  Claim C1, as stated, fails in the error it names: after the first successful
  \<open>completeCall\<close> for call 7, by developer 3, a \<open>completeCall\<close> for call 7 by account 4
  fails with \<open>Unauthorized\<close>, which is neither \<open>CallAlreadyCompleted\<close> nor the revert
  for a payment already released.
\<close>

theorem completeCall_again_counterexample:
  "exec 8 booked (CompleteCall 3 7 [] True) = Inr paid_out \<and>
   exec 9 paid_out (CompleteCall 4 7 [] True) = Inl (Unauthorized 4 3)"
  using paid_out_exec by (simp add: completeCall_def Let_def paid_out_call)

text \<open>
  Claim C1, amended. A successful \<open>completeCall\<close> is made by the stored developer; it
  sets \<open>isCompleted\<close> and \<open>isPaid\<close>, clears the stored amount, and transfers the amount
  that was stored to the stored developer (when the recipient does not call back, this
  is the one transfer made and the balance goes down by exactly that amount). The amount
  and the developer stored are those of the \<open>createCall\<close> that made the record, whatever
  transactions came in between. It logs one \<open>PaymentReleased\<close> event for the call id,
  also when the recipient calls back into the contract, and in a reachable state it is
  the first one. After it, whatever transactions follow, the record stays as it is, no
  further \<open>PaymentReleased\<close> event for the call id is logged, the balance moves only by
  what \<open>CallCreated\<close> and \<open>PaymentReleased\<close> events account for, and every
  \<open>completeCall\<close> for the call id fails: with \<open>CallAlreadyCompleted\<close> when the sender is
  the stored developer, with \<open>Unauthorized\<close> otherwise.
\<close>

theorem completeCall_pays_once:
  assumes "exec now s (CompleteCall sender callId inner accepts) = Inr s1"
  shows "sender = developer (calls s callId) \<and>
         isCompleted (calls s1 callId) \<and> isPaid (calls s1 callId) \<and> amount (calls s1 callId) = 0 \<and>
         unat (amount (calls s callId)) \<le> balance s \<and>
         (\<exists>later. transfers s1 =
            transfers s @ (developer (calls s callId), amount (calls s callId)) # later) \<and>
         (inner = [] \<longrightarrow> balance s1 = balance s - unat (amount (calls s callId)) \<and>
            transfers s1 = transfers s @ [(developer (calls s callId), amount (calls s callId))]) \<and>
         (client0 \<noteq> 0 \<and> createCall now0 s0 client0 val callId dev dur = Inr sc \<and> s = run sc txs0 \<longrightarrow>
            amount (calls s callId) = val \<and> developer (calls s callId) = dev) \<and>
         payments callId s1 = payments callId s @
            [PaymentReleased callId (developer (calls s callId)) (amount (calls s callId))] \<and>
         (reachable s \<longrightarrow> payments callId s = []) \<and>
         unlogged s1 = unlogged s \<and>
         calls (run s1 txs) callId = calls s1 callId \<and>
         payments callId (run s1 txs) = payments callId s1 \<and>
         unlogged (run s1 txs) = unlogged s \<and>
         exec now' (run s1 txs) (CompleteCall sender' callId inner' accepts') =
           Inl (if sender' = developer (calls s callId) then CallAlreadyCompleted callId
                else Unauthorized sender' (developer (calls s callId)))"
proof -
  note f = exec_completeCall_Inr [OF assms]
  note st = completeCall_once_step [OF assms]
  have settled: "client (calls s1 callId) \<noteq> 0" "isCompleted (calls s1 callId)"
    "isPaid (calls s1 callId)" "amount (calls s1 callId) = 0"
    "developer (calls s1 callId) = developer (calls s callId)"
    using f(1) by (simp_all add: st(1))
  have later: "calls (run s1 txs) callId = calls s1 callId \<and>
      payments callId (run s1 txs) = payments callId s1"
    using settled(1-3) by (rule settled_run)
  have cons: "unlogged s1 = unlogged s" "unlogged (run s1 txs) = unlogged s"
    using unlogged_conserved(1) [OF assms] by (simp_all add: unlogged_run)
  have again: "exec now' (run s1 txs) (CompleteCall sender' callId inner' accepts') =
           Inl (if sender' = developer (calls s callId) then CallAlreadyCompleted callId
                else Unauthorized sender' (developer (calls s callId)))"
    using later settled by (auto simp: completeCall_def Let_def)
  have orig: "amount (calls s callId) = val \<and> developer (calls s callId) = dev"
    if "client0 \<noteq> 0" and c: "createCall now0 s0 client0 val callId dev dur = Inr sc"
      and "s = run sc txs0"
  proof -
    have "client (calls sc callId) \<noteq> 0" "\<not> isCompleted (calls sc callId)"
      "amount (calls sc callId) = val" "developer (calls sc callId) = dev"
      using that(1) by (simp_all add: createCall_Inr(6) [OF c])
    with open_record_run [of sc callId txs0] f(3) that(3) show ?thesis by simp
  qed
  have fresh: "payments callId s = []" if "reachable s"
    using reachable_payment_settles [OF that, of callId] f(3) by blast
  show ?thesis
    using f(2,6) settled(2-4) st(2-4) later cons again orig fresh by blast
qed

theorem completeCall_pays_once_witness:
  "createCall 5 (deploy 1) 2 100 7 3 60 = Inr booked \<and>
   booked_twice = run booked [(5, CreateCall 2 100 8 3 60)] \<and> reachable booked_twice \<and>
   exec 8 booked_twice (CompleteCall 3 7 [CompleteCall 3 7 [] True] True) = Inr paid_once \<and>
   amount (calls booked_twice 7) = 100 \<and> developer (calls booked_twice 7) = 3 \<and>
   balance booked_twice = 200 \<and> balance paid_once = 100 \<and>
   isCompleted (calls paid_once 7) \<and> isPaid (calls paid_once 7) \<and> amount (calls paid_once 7) = 0 \<and>
   transfers paid_once = [(3, 100)] \<and>
   payments 7 paid_once = [PaymentReleased 7 3 100] \<and>
   payments 7 (run paid_once [(9, CompleteCall 3 7 [] True), (9, StartCall 2 8)]) =
     [PaymentReleased 7 3 100] \<and>
   exec 9 paid_once (CompleteCall 3 7 [] True) = Inl (CallAlreadyCompleted 7) \<and>
   exec 9 (run paid_once [(9, StartCall 2 8)]) (CompleteCall 4 7 [] True) = Inl (Unauthorized 4 3) \<and>
   exec 8 booked (CompleteCall 3 7 [] True) = Inr paid_out \<and>
   balance booked = 100 \<and> balance paid_out = 0 \<and> transfers paid_out = [(3, 100)]"
proof -
  note once = completeCall_pays_once [OF paid_once_exec]
  have "balance paid_out = 0 \<and> transfers paid_out = [(3, 100)]"
    using completeCall_pays_once [OF paid_out_exec,
        of 2 5 "deploy 1" 100 3 60 booked "[]" "[]" 9 3 "[]" True]
    by (simp add: booked_call booked_state)
  moreover note paid_out_exec
  moreover
  have created: "createCall 5 (deploy 1) 2 100 7 3 60 = Inr booked"
    by (simp add: booked_def transact_def createCall_def Let_def deploy_def no_call_def)
  have twice: "booked_twice = run booked [(5, CreateCall 2 100 8 3 60)]"
    by (simp add: booked_twice_def)
  have "amount (calls booked_twice 7) = 100 \<and> developer (calls booked_twice 7) = 3"
    using once [of 2 5 "deploy 1" 100 3 60 booked "[(5, CreateCall 2 100 8 3 60)]"
        "[]" 9 3 "[]" True] created twice
    by (simp del: run_Cons run_Nil exec.simps)
  moreover have "payments 7 paid_once = [PaymentReleased 7 3 100]"
    using once [of 2 5 "deploy 1" 100 3 60 booked "[]" "[]" 9 3 "[]" True] reachable_examples(4)
    by (simp add: booked_twice_call)
  moreover have "payments 7 (run paid_once [(9, CompleteCall 3 7 [] True), (9, StartCall 2 8)]) =
      payments 7 paid_once"
    using once [of 2 5 "deploy 1" 100 3 60 booked "[]"
        "[(9, CompleteCall 3 7 [] True), (9, StartCall 2 8)]" 9 3 "[]" True]
    by (elim conjE)
  moreover have "exec 9 paid_once (CompleteCall 3 7 [] True) = Inl (CallAlreadyCompleted 7)"
    using once [of 2 5 "deploy 1" 100 3 60 booked "[]" "[]" 9 3 "[]" True]
    by (simp add: booked_twice_call)
  moreover have "exec 9 (run paid_once [(9, StartCall 2 8)]) (CompleteCall 4 7 [] True) =
      Inl (Unauthorized 4 3)"
    using once [of 2 5 "deploy 1" 100 3 60 booked "[]" "[(9, StartCall 2 8)]" 9 4 "[]" True]
    by (simp add: booked_twice_call del: run_Cons run_Nil exec.simps)
  ultimately show ?thesis
    using created twice reachable_examples(4)
    by (simp add: paid_once_exec booked_twice_call paid_once_call booked_call
          del: run_Cons run_Nil exec.simps)
qed

section \<open>Properties of the orchestrator\<close>

lemma confirm_loop_receipt:
  "confirm_loop poll reread (Some status) attempts = Some status"
  by (simp add: confirm_loop.simps)

lemma confirm_loop_first_receipt:
  "poll 0 = Receipt status \<Longrightarrow> confirm_loop poll reread None 0 = Some status"
  by (subst confirm_loop.simps)
    (simp add: try_receipt_def maxAttempts_def confirm_loop_receipt split: details_reply.split)

text \<open>
  Claim C5 asks that a receipt with a failure status, and a successful receipt after
  which the record is still not paid, make \<open>completeCall\<close> reject. The code throws in
  both cases, inside the \<open>try\<close> block of the polling loop, whose own \<open>catch\<close> logs the
  error and goes on; \<open>receipt\<close> is assigned by then, so the loop ends and the
  transaction hash is returned. Here the first poll answers with a failed receipt, and
  with a successful receipt while the record read back has \<open>isPaid = false\<close>.
\<close>

theorem completeCall_confirm_failed_receipt:
  "completeCall_confirm ''0x5e'' (\<lambda>n. Receipt False) (\<lambda>n. Details False) = Inr ''0x5e'' \<and>
   completeCall_confirm ''0x5e'' (\<lambda>n. Receipt True) (\<lambda>n. Details False) = Inr ''0x5e''"
  using confirm_loop_first_receipt [of "\<lambda>n. Receipt False" False "\<lambda>n. Details False"]
    confirm_loop_first_receipt [of "\<lambda>n. Receipt True" True "\<lambda>n. Details False"]
  by (simp add: completeCall_confirm_def)

subsection \<open>Round trip of an amount\<close>






section \<open>Properties of the coordinator\<close>

text \<open>
  On whole numbers the countdown is computed without rounding as long as the seconds of
  the duration, the milliseconds elapsed and the result stay below \<open>2^53\<close> in magnitude.
\<close>

lemma countdown_exact:
  assumes "\<bar>d * 60\<bar> < 2 ^ 53" and "\<bar>t - start\<bar> < 2 ^ 53"
    and "\<bar>d * 60 - (t - start) div 1000\<bar> < 2 ^ 53"
  shows "to_double (to_double (of_int d * 60) -
           of_int \<lfloor>to_double (to_double (of_int t - of_int start) / 1000)\<rfloor>) =
         of_int (d * 60 - (t - start) div 1000)"
proof -
  have "to_double (of_int t - of_int start) = of_int (t - start)"
    using to_double_of_int [OF assms(2)] by simp
  then have e: "\<lfloor>to_double (to_double (of_int t - of_int start) / 1000)\<rfloor> = (t - start) div 1000"
    using floor_thousandth [OF assms(2)] by simp
  have "to_double (of_int d * 60) = of_int (d * 60)"
    using to_double_of_int [OF assms(1)] by simp
  then have "to_double (to_double (of_int d * 60) -
           of_int \<lfloor>to_double (to_double (of_int t - of_int start) / 1000)\<rfloor>) =
         to_double (of_int (d * 60 - (t - start) div 1000))"
    by (simp only: e of_int_diff)
  also have "\<dots> = of_int (d * 60 - (t - start) div 1000)"
    by (rule to_double_of_int [OF assms(3)])
  finally show ?thesis .
qed

lemma session_countdown:
  "to_double (to_double (30 * 60) -
     of_int \<lfloor>to_double (to_double (1600000 - 1000000) / 1000)\<rfloor>) = 1200"
  "to_double (to_double (30 * 60) -
     of_int \<lfloor>to_double (to_double (2800000 - 1000000) / 1000)\<rfloor>) = 0"
  using countdown_exact [of 30 1600000 1000000] countdown_exact [of 30 2800000 1000000]
  by simp_all

text \<open>
  Claim C8, as stated, fails: with the session document and everything else fixed, the
  countdown of \<open>initializeCall\<close> follows the local clock, and so does the countdown of
  the snapshot handler of \<open>fetchCallData\<close> when the round trip through the document store
  fails.
\<close>

theorem countdown_local_clock_counterexample:
  "initializeCall session False 1600000 = (StartTimer 1200, True) \<and>
   initializeCall session False 2800000 = (HandleCallEnd, True) \<and>
   fetchCallData_snapshot session False AddDocFails 1600000 = (StartTimer 1200, True) \<and>
   fetchCallData_snapshot session False AddDocFails 2800000 = (HandleCallEnd, False)"
  using session_countdown
  by (simp add: initializeCall_def fetchCallData_snapshot_def getServerTimestamp_def session_def
        Let_def)

text \<open>
  Claim C8, amended. In the snapshot handler of \<open>fetchCallData\<close>, for a session with a
  recorded start time whose countdown is not yet initialised, and with a duration of
  whole minutes such that the seconds of the duration, the milliseconds elapsed and the
  result are below \<open>2^53\<close> in magnitude (where the arithmetic of doubles is exact), the
  remaining seconds are \<open>duration * 60\<close> minus the whole seconds elapsed since the start
  time. The time is the one \<open>getServerTimestamp\<close> gives: the server-assigned timestamp
  when the round trip through the document store succeeds with a non-zero timestamp,
  the local clock when the round trip fails or gives no timestamp. A positive
  remainder starts the countdown, any other ends the call.
\<close>

theorem fetchCallData_snapshot_remaining:
  assumes "cd_startTime data = Some start" and "\<not> callInitialized"
    and "cd_duration data = of_int d" and "t = getServerTimestamp reply date_now"
    and "\<bar>d * 60\<bar> < 2 ^ 53" and "\<bar>t - start\<bar> < 2 ^ 53"
    and "\<bar>d * 60 - (t - start) div 1000\<bar> < 2 ^ 53"
  shows "fetchCallData_snapshot data callInitialized reply date_now =
           (if d * 60 - (t - start) div 1000 > 0
            then (StartTimer (of_int (d * 60 - (t - start) div 1000)), True)
            else (HandleCallEnd, False)) \<and>
         (ts \<noteq> 0 \<longrightarrow> getServerTimestamp (Stamped (Some ts)) clock = ts) \<and>
         (failed \<in> {AddDocFails, GetDocFails, DeleteDocFails stamp, Stamped None, Stamped (Some 0)} \<longrightarrow>
            getServerTimestamp failed clock = clock)"
proof -
  have "to_double (to_double (cd_duration data * 60) -
           of_int \<lfloor>to_double (to_double (of_int t - of_int start) / 1000)\<rfloor>) =
         of_int (d * 60 - (t - start) div 1000)"
    using countdown_exact [OF assms(5-7)] by (simp only: assms(3))
  then have "fetchCallData_snapshot data callInitialized reply date_now =
           (if d * 60 - (t - start) div 1000 > 0
            then (StartTimer (of_int (d * 60 - (t - start) div 1000)), True)
            else (HandleCallEnd, False))"
    using assms(1,2) by (simp add: fetchCallData_snapshot_def Let_def assms(4) [symmetric])
  then show ?thesis
    by (auto simp: getServerTimestamp_def)
qed

theorem fetchCallData_snapshot_remaining_witness:
  "cd_startTime session = Some 1000000 \<and> cd_duration session = of_int 30 \<and>
   getServerTimestamp (Stamped (Some 1600000)) 2800000 = 1600000 \<and>
   getServerTimestamp GetDocFails 1600000 = 1600000 \<and>
   fetchCallData_snapshot session False (Stamped (Some 1600000)) 2800000 = (StartTimer 1200, True) \<and>
   fetchCallData_snapshot session False (Stamped (Some 2800000)) 1600000 = (HandleCallEnd, False) \<and>
   fetchCallData_snapshot session False GetDocFails 1600000 = (StartTimer 1200, True)"
proof -
  have s: "cd_startTime session = Some 1000000" "cd_duration session = of_int 30"
    by (simp_all add: session_def)
  have g: "getServerTimestamp (Stamped (Some 1600000)) 2800000 = 1600000"
    "getServerTimestamp (Stamped (Some 2800000)) 1600000 = 2800000"
    "getServerTimestamp GetDocFails 1600000 = 1600000"
    by (simp_all add: getServerTimestamp_def)
  show ?thesis
    using fetchCallData_snapshot_remaining [OF s(1) _ s(2) g(1) [symmetric],
        of False 1600000 2800000 GetDocFails None]
      fetchCallData_snapshot_remaining [OF s(1) _ s(2) g(2) [symmetric],
        of False 1600000 2800000 GetDocFails None]
      fetchCallData_snapshot_remaining [OF s(1) _ s(2) g(3) [symmetric],
        of False 1600000 1600000 GetDocFails None]
    by (simp add: s g)
qed

subsection \<open>Ending a session\<close>

text \<open>
  Claim C7 asks that repeated end triggers lead to exactly one completion submission.
  \<open>handleCallEnd\<close> is indeed a no-op when its closure holds \<open>isCallEnding = true\<close>. But
  the \<open>requiresPayment\<close> listener guards on the flags of the snapshot and on the
  \<open>isCallEnding\<close> of its closure, \<open>processPayment\<close> never sets \<open>isCallEnding\<close>, and it
  writes \<open>paymentReleased\<close> only after \<open>web3Service.completeCall\<close> has returned. So the
  same document state delivered twice submits twice, and so does the developer's own
  \<open>handleCallEnd\<close> together with the delivery of the document it has just written to a
  listener whose closure still holds \<open>isCallEnding = false\<close>.
\<close>

theorem session_end_submits_twice:
  "handleCallEnd (Some session) (Some ''client_dev_1'') True (Some ''dev'') None True replies_ok
     = [] \<and>
   apply_write active_doc (WriteCompleted ''manual'') = ended_doc \<and>
   submissions
     (requiresPayment_listener (Some ''dev'') session False (Some ended_doc) replies_ok) = 1 \<and>
   submissions
     (requiresPayment_listener (Some ''dev'') session False (Some ended_doc) replies_ok @
      requiresPayment_listener (Some ''dev'') session False (Some ended_doc) replies_ok) = 2 \<and>
   submissions
     (handleCallEnd (Some session) (Some ''client_dev_1'') False (Some ''dev'') None True
        replies_ok) = 1 \<and>
   submissions
     (handleCallEnd (Some session) (Some ''client_dev_1'') False (Some ''dev'') None True
        replies_ok @
      requiresPayment_listener (Some ''dev'') session False
        (Some (apply_write active_doc (WriteCompleted ''manual''))) replies_ok) = 2"
  by (simp add: handleCallEnd_def requiresPayment_listener_def processPayment_def
        submissions_def apply_write_def session_def active_doc_def ended_doc_def replies_ok_def
        Let_def)

end
